theory Spec2Isabelle
  imports Main "HOL-Library.Word"
begin

unbundle bit_operations_syntax

section \<open>Mix keys (mixkey.go)\<close>

subsection \<open>Bytes and the little-endian counter encoding\<close>

type_synonym byte = "8 word"
type_synonym bytes = "byte list"

text \<open>
  \<^verbatim>\<open>binary.LittleEndian.PutUint64(b, v)\<close> writes \<open>byte(v)\<close>, \<open>byte(v >> 8)\<close>, ...,
  \<open>byte(v >> 56)\<close>; \<^verbatim>\<open>binary.LittleEndian.Uint64(b)\<close> reads
  \<open>uint64(b[0]) | uint64(b[1])<<8 | ... | uint64(b[7])<<56\<close> from the first 8 bytes. The
  code calls \<open>Uint64\<close> only on slices of length 8; on a shorter slice, where Go panics,
  the model returns 0, which no caller reaches.
\<close>

definition PutUint64 :: "64 word \<Rightarrow> bytes" where
  "PutUint64 v =
     [ucast v, ucast (drop_bit 8 v), ucast (drop_bit 16 v), ucast (drop_bit 24 v),
      ucast (drop_bit 32 v), ucast (drop_bit 40 v), ucast (drop_bit 48 v),
      ucast (drop_bit 56 v)]"

fun Uint64 :: "bytes \<Rightarrow> 64 word" where
  "Uint64 (b0 # b1 # b2 # b3 # b4 # b5 # b6 # b7 # rest) =
     ucast b0 OR push_bit 8 (ucast b1) OR push_bit 16 (ucast b2) OR push_bit 24 (ucast b3)
     OR push_bit 32 (ucast b4) OR push_bit 40 (ucast b5) OR push_bit 48 (ucast b6)
     OR push_bit 56 (ucast b7)"
| "Uint64 _ = 0"

text \<open>The same encoding, byte by byte; the proofs go through it.\<close>

primrec le_bytes :: "nat \<Rightarrow> 64 word \<Rightarrow> bytes" where
  "le_bytes 0 v = []"
| "le_bytes (Suc n) v = ucast v # le_bytes n (drop_bit 8 v)"

primrec le_word :: "bytes \<Rightarrow> 64 word" where
  "le_word [] = 0"
| "le_word (x # xs) = ucast x OR push_bit 8 (le_word xs)"

subsection \<open>The embedded store, the file system and the key\<close>

text \<open>
  The database file of a key is \<open>filepath.Join(dataDir, "mixkey-<epoch>.db")\<close>; a path is
  kept in that structured form, the directory and the epoch number of the file name.
\<close>

type_synonym path = "string \<times> 64 word"

text \<open>
  A bolt database file holds named buckets of key/value pairs. The code uses two buckets,
  \<open>metadata\<close> (keys are the Go strings \<open>version\<close>, \<open>privateKey\<close>, \<open>epochKey\<close>) and
  \<open>replay\<close> (keys are replay tags). A bucket that does not exist is \<open>None\<close>; \<open>Get\<close> of a key
  that is not stored returns \<open>nil\<close>, here \<open>None\<close>. \<open>Put\<close> stores the pair; the size limits
  the store puts on keys and values are not modelled.
\<close>

record boltfile =
  metadata :: "(string \<rightharpoonup> bytes) option"
  replay :: "(bytes \<rightharpoonup> bytes) option"

text \<open>
  The calls the code makes to the store, the operating system and the key library that
  leave no other mark in the model are kept, in order, in a trace.
\<close>

datatype 'k event = DbSync path | DbClose path | OsRemove path | KeyReset 'k

record 'k world =
  files :: "path \<rightharpoonup> boltfile"
  trace :: "'k event list"

text \<open>
  \<open>db\<close> is the handle of the open database (\<open>nil\<close> is \<open>None\<close>), named by the path it was
  opened at; \<open>refCount\<close> is an \<open>int32\<close>, read with \<open>sint\<close>.
\<close>

record 'k MixKey =
  db :: "path option"
  keypair :: "'k option"
  epoch :: "64 word"
  refCount :: "32 word"
  unlinkIfExpired :: bool

text \<open>
  The key library \<open>ecdh\<close> is not part of the repository: its operations are parameters.
  \<open>FromBytes\<close> is \<open>None\<close> where the library returns an error.
\<close>

record 'k ecdh =
  FromBytes :: "bytes \<Rightarrow> 'k option"
  Bytes :: "'k \<Rightarrow> bytes"
  Public :: "'k \<Rightarrow> bytes"

datatype panic =
    ReplayBucketMissing | ReplayUpdateFailed | RefcountNegative | RefcountZeroOrNegative
  | NilDereference | IndexOutOfRange

datatype err =
    OpenFailed | IncompatibleVersion | MissingPrivateKey | BadPrivateKey
  | MissingEntry string | CorruptedEntry string | EpochMismatch | KeypairFailed
  | NotInConsensus | MissingTopology | NameMismatch | InvalidLayer

datatype failure = Panics panic | Fails err

definition SetUnlinkIfExpired :: "bool \<Rightarrow> 'k MixKey \<Rightarrow> 'k MixKey" where
  "SetUnlinkIfExpired b k = k\<lparr>unlinkIfExpired := b\<rparr>"

definition PublicKey :: "'k ecdh \<Rightarrow> 'k MixKey \<Rightarrow> failure + bytes" where
  "PublicKey X k =
     (case keypair k of None \<Rightarrow> Inl (Panics NilDereference) | Some kp \<Rightarrow> Inr (Public X kp))"

text \<open>
  \<open>IsReplay\<close>: an empty tag is a replay and touches nothing. Otherwise one update
  transaction reads the counter (a stored value of length 8; anything else leaves
  \<open>seenCount\<close> at 0), increments it, replaces a wrapped 0 by \<open>math.MaxUint64\<close>, writes it
  back and returns \<open>seenCount != 1\<close>. A \<open>nil\<close> handle, a failed update and a missing bucket
  panic. A handle whose file is gone cannot arise from the operations modelled here (only
  \<open>forceClose\<close> unlinks, after it has dropped the handle); it is the failed update.
\<close>

definition IsReplay :: "'k MixKey \<Rightarrow> bytes \<Rightarrow> 'k world \<Rightarrow> failure + (bool \<times> 'k world)" where
  "IsReplay k tag w =
     (if length tag = 0 then Inr (True, w)
      else case db k of
        None \<Rightarrow> Inl (Panics NilDereference)
      | Some f \<Rightarrow>
          (case files w f of
            None \<Rightarrow> Inl (Panics ReplayUpdateFailed)
          | Some fl \<Rightarrow>
              (case replay fl of
                None \<Rightarrow> Inl (Panics ReplayBucketMissing)
              | Some bkt \<Rightarrow>
                  let b = (case bkt tag of None \<Rightarrow> [] | Some v \<Rightarrow> v);
                      seen0 = (if length b = 8 then Uint64 b else 0);
                      seen1 = seen0 + 1;
                      seenCount = (if seen1 = 0 then - 1 else seen1);
                      fl' = fl\<lparr>replay := Some (bkt(tag \<mapsto> PutUint64 seenCount))\<rparr>
                  in Inr (seenCount \<noteq> 1, w\<lparr>files := (files w)(f \<mapsto> fl')\<rparr>))))"

text \<open>
  \<open>forceClose\<close> reads the clock (\<open>now\<close> is the epoch \<open>epochtime.Now()\<close> returns) only
  after the database is closed; \<open>epoch-1\<close> is \<open>uint64\<close> arithmetic and wraps at 0.
\<close>

definition flush :: "path \<Rightarrow> 'k world \<Rightarrow> 'k world" where
  "flush f w = w\<lparr>trace := trace w @ [DbSync f]\<rparr>"

definition db_Close :: "path \<Rightarrow> 'k world \<Rightarrow> 'k world" where
  "db_Close f w = w\<lparr>trace := trace w @ [DbClose f]\<rparr>"

definition os_Remove :: "path \<Rightarrow> 'k world \<Rightarrow> 'k world" where
  "os_Remove f w = w\<lparr>files := (files w)(f := None), trace := trace w @ [OsRemove f]\<rparr>"

definition keypair_Reset :: "'k \<Rightarrow> 'k world \<Rightarrow> 'k world" where
  "keypair_Reset kp w = w\<lparr>trace := trace w @ [KeyReset kp]\<rparr>"

definition forceClose :: "64 word \<Rightarrow> 'k MixKey \<Rightarrow> 'k world \<Rightarrow> 'k MixKey \<times> 'k world" where
  "forceClose now k w =
     (let (k1, w1) =
            (case db k of
              None \<Rightarrow> (k, w)
            | Some f \<Rightarrow>
                let w' = db_Close f (flush f w);
                    k' = k\<lparr>db := None\<rparr>
                in if unlinkIfExpired k' \<and> epoch k' < now - 1
                   then (k', os_Remove f w') else (k', w'))
      in case keypair k1 of
           None \<Rightarrow> (k1, w1)
         | Some kp \<Rightarrow> (k1\<lparr>keypair := None\<rparr>, keypair_Reset kp w1))"

text \<open>
  \<open>Deref\<close> and \<open>Ref\<close>: \<open>atomic.AddInt32\<close> wraps around; the comparisons are signed.
\<close>

definition Deref :: "64 word \<Rightarrow> 'k MixKey \<Rightarrow> 'k world \<Rightarrow> failure + ('k MixKey \<times> 'k world)" where
  "Deref now k w =
     (let i = refCount k - 1;
          k' = k\<lparr>refCount := i\<rparr>
      in if i = 0 then Inr (forceClose now k' w)
         else if sint i < 0 then Inl (Panics RefcountNegative)
         else Inr (k', w))"

definition Ref :: "'k MixKey \<Rightarrow> failure + 'k MixKey" where
  "Ref k =
     (let i = refCount k + 1
      in if sint i \<le> 1 then Inl (Panics RefcountZeroOrNegative)
         else Inr (k\<lparr>refCount := i\<rparr>))"

text \<open>
  \<open>New\<close>. What the code cannot decide is a parameter: \<open>openFails\<close> says that \<open>bolt.Open\<close>
  returns an error, \<open>gen\<close> is what \<open>ecdh.NewKeypair(rand.Reader)\<close> returns (\<open>None\<close> for an
  error). \<open>bolt.Open\<close> creates a file that does not exist, with no bucket. The update
  transaction creates the buckets that are missing and commits only when its function
  returns \<open>nil\<close>. A stored version of length 0 makes the error message's \<open>b[0]\<close> panic.
  The state a failed call leaves behind is not modelled.
\<close>

definition newFile :: boltfile where
  "newFile = \<lparr>metadata = None, replay = None\<rparr>"

definition bolt_Open :: "path \<Rightarrow> 'k world \<Rightarrow> boltfile" where
  "bolt_Open f w = (case files w f of None \<Rightarrow> newFile | Some fl \<Rightarrow> fl)"

definition CreateBucketIfNotExists :: "('a \<rightharpoonup> bytes) option \<Rightarrow> ('a \<rightharpoonup> bytes)" where
  "CreateBucketIfNotExists b = (case b of None \<Rightarrow> Map.empty | Some m \<Rightarrow> m)"

definition getUint64 :: "(string \<rightharpoonup> bytes) \<Rightarrow> string \<Rightarrow> failure + 64 word" where
  "getUint64 bkt key =
     (case bkt key of
        None \<Rightarrow> Inl (Fails (MissingEntry key))
      | Some buf \<Rightarrow>
          if length buf \<noteq> 8 then Inl (Fails (CorruptedEntry key)) else Inr (Uint64 buf))"

definition New ::
  "'k ecdh \<Rightarrow> bool \<Rightarrow> 'k option \<Rightarrow> string \<Rightarrow> 64 word \<Rightarrow> 'k world \<Rightarrow> failure + ('k MixKey \<times> 'k world)"
where
  "New X openFails gen dataDir ep w =
     (let f = (dataDir, ep);
          k = \<lparr>db = None, keypair = None, epoch = ep, refCount = 1, unlinkIfExpired = False\<rparr>
      in if openFails then Inl (Fails OpenFailed)
         else
           let k = k\<lparr>db := Some f\<rparr>;
               fl = bolt_Open f w;
               bkt = CreateBucketIfNotExists (metadata fl);
               rbkt = CreateBucketIfNotExists (replay fl)
           in case bkt ''version'' of
                Some b \<Rightarrow>
                  if length b \<noteq> 1 \<or> b ! 0 \<noteq> 0
                  then (if length b = 0 then Inl (Panics IndexOutOfRange)
                        else Inl (Fails IncompatibleVersion))
                  else
                    (case bkt ''privateKey'' of
                       None \<Rightarrow> Inl (Fails MissingPrivateKey)
                     | Some pb \<Rightarrow>
                         (case FromBytes X pb of
                            None \<Rightarrow> Inl (Fails BadPrivateKey)
                          | Some kp \<Rightarrow>
                              (case getUint64 bkt ''epochKey'' of
                                 Inl e \<Rightarrow> Inl e
                               | Inr dbEpoch \<Rightarrow>
                                   if dbEpoch \<noteq> ep then Inl (Fails EpochMismatch)
                                   else
                                     Inr (k\<lparr>keypair := Some kp\<rparr>,
                                          w\<lparr>files := (files w)
                                               (f \<mapsto> \<lparr>metadata = Some bkt, replay = Some rbkt\<rparr>)\<rparr>))))
              | None \<Rightarrow>
                  (case gen of
                     None \<Rightarrow> Inl (Fails KeypairFailed)
                   | Some kp \<Rightarrow>
                       let bkt' = bkt(''version'' \<mapsto> [0], ''privateKey'' \<mapsto> Bytes X kp,
                                      ''epochKey'' \<mapsto> PutUint64 ep)
                       in Inr (k\<lparr>keypair := Some kp\<rparr>,
                               flush f (w\<lparr>files := (files w)
                                    (f \<mapsto> \<lparr>metadata = Some bkt', replay = Some rbkt\<rparr>)\<rparr>))))"

subsection \<open>Notions used to state the properties of the key\<close>

text \<open>The replay bucket behind the key's handle, and the counter stored for a tag as
  \<open>IsReplay\<close> reads it (no value, or a value of another length than 8, counts as 0).\<close>

definition replayBucket :: "'k MixKey \<Rightarrow> 'k world \<Rightarrow> (bytes \<rightharpoonup> bytes) option" where
  "replayBucket k w =
     (case db k of None \<Rightarrow> None
      | Some f \<Rightarrow> (case files w f of None \<Rightarrow> None | Some fl \<Rightarrow> replay fl))"

definition storedCounter :: "(bytes \<rightharpoonup> bytes) \<Rightarrow> bytes \<Rightarrow> 64 word" where
  "storedCounter bkt tag =
     (case bkt tag of None \<Rightarrow> 0 | Some b \<Rightarrow> if length b = 8 then Uint64 b else 0)"

text \<open>A run of \<open>IsReplay\<close> calls on one key, collecting the verdicts in order.\<close>

fun IsReplay_run :: "'k MixKey \<Rightarrow> bytes list \<Rightarrow> 'k world \<Rightarrow> failure + (bool list \<times> 'k world)" where
  "IsReplay_run k [] w = Inr ([], w)"
| "IsReplay_run k (t # ts) w =
     (case IsReplay k t w of
        Inl e \<Rightarrow> Inl e
      | Inr (v, w') \<Rightarrow>
          (case IsReplay_run k ts w' of
             Inl e \<Rightarrow> Inl e
           | Inr (vs, w'') \<Rightarrow> Inr (v # vs, w'')))"

text \<open>
  A run of \<open>Ref\<close> and \<open>Deref\<close> calls on one key; a \<open>Deref\<close> carries the epoch the clock
  shows should it close the key. The run stops at the first panic.
\<close>

datatype refop = OpRef | OpDeref "64 word"

fun refop_run :: "refop list \<Rightarrow> 'k MixKey \<Rightarrow> 'k world \<Rightarrow> failure + ('k MixKey \<times> 'k world)" where
  "refop_run [] k w = Inr (k, w)"
| "refop_run (OpRef # ops) k w =
     (case Ref k of Inl e \<Rightarrow> Inl e | Inr k' \<Rightarrow> refop_run ops k' w)"
| "refop_run (OpDeref now # ops) k w =
     (case Deref now k w of Inl e \<Rightarrow> Inl e | Inr (k', w') \<Rightarrow> refop_run ops k' w')"

definition isDeref :: "refop \<Rightarrow> bool" where
  "isDeref op = (case op of OpRef \<Rightarrow> False | OpDeref _ \<Rightarrow> True)"

text \<open>How often the database at a path has been closed.\<close>

definition closes :: "path \<Rightarrow> 'k world \<Rightarrow> nat" where
  "closes f w = length (filter (\<lambda>e. e = DbClose f) (trace w))"

text \<open>Incrementing a counter with saturation at the maximum.\<close>

definition satInc :: "64 word \<Rightarrow> 64 word" where
  "satInc c = (if c = - 1 then - 1 else c + 1)"

section \<open>The PKI cache (pki.go)\<close>

subsection \<open>Documents and cache entries\<close>

text \<open>
  A descriptor carries its keys as the bytes \<open>IdentityKey.Bytes()\<close> and \<open>LinkKey.Bytes()\<close>
  return; \<open>Layer\<close> is a \<open>uint8\<close>. Descriptors are values: a \<open>nil\<close> descriptor in a
  document is not modelled.
\<close>

record MixDescriptor =
  Name :: string
  IdentityKey :: bytes
  LinkKey :: bytes
  Layer :: "8 word"

record Document =
  Epoch :: "64 word"
  Topology :: "MixDescriptor list list"
  Providers :: "MixDescriptor list"

text \<open>
  Modelled from the spec: the constant \<open>constants.NodeIDLength\<close> is declared in the core
  library, not in this repository; the spec gives \<open>NodeIdLen = 32\<close>.
\<close>

definition NodeIDLength :: nat where
  "NodeIDLength = 32"

text \<open>
  \<^verbatim>\<open>var id [constants.NodeIDLength]byte; copy(id[:], b)\<close>: the first \<open>NodeIDLength\<close>
  bytes of \<open>b\<close>, filled up with zero bytes. The maps of a cache entry are keyed by such
  arrays.
\<close>

definition nodeId :: "bytes \<Rightarrow> bytes" where
  "nodeId b = take NodeIDLength b @ replicate (NodeIDLength - length b) 0"

record pkiCacheEntry =
  doc :: Document
  self :: MixDescriptor
  incoming :: "bytes \<rightharpoonup> MixDescriptor"
  outgoing :: "bytes \<rightharpoonup> MixDescriptor"

text \<open>
  What the document library \<open>cpki\<close> supplies is a parameter: the sentinel
  \<open>cpki.LayerProvider\<close> (a \<open>uint8\<close> constant) and the lookup \<open>Document.GetNodeByKey\<close>
  (\<open>None\<close> where it returns an error).
\<close>

record cpki =
  LayerProvider :: "8 word"
  GetNodeByKey :: "Document \<Rightarrow> bytes \<Rightarrow> MixDescriptor option"

text \<open>
  What \<open>newPKICacheEntry\<close> and the authentication read of the server: the public identity
  key's bytes and three options of the configuration.
\<close>

record Server =
  identityKey :: bytes
  Identifier :: string
  IsProvider :: bool
  DisableMixAuthentication :: bool

definition isOurLayerSane :: "cpki \<Rightarrow> pkiCacheEntry \<Rightarrow> bool \<Rightarrow> bool" where
  "isOurLayerSane P e isProvider =
     (if isProvider \<and> Layer (self e) \<noteq> LayerProvider P then False
      else if \<not> isProvider \<and> Layer (self e) = LayerProvider P then False
      else if \<not> isProvider \<and> length (Topology (doc e)) \<le> unat (Layer (self e)) then False
      else True)"

text \<open>\<open>uint8(len(e.doc.Topology)) - 1\<close> truncates the length to 8 bits and wraps at 0.\<close>

definition incomingLayer :: "cpki \<Rightarrow> pkiCacheEntry \<Rightarrow> 8 word" where
  "incomingLayer P e =
     (if Layer (self e) = LayerProvider P then word_of_nat (length (Topology (doc e))) - 1
      else if Layer (self e) = 0 then LayerProvider P
      else Layer (self e) - 1)"

text \<open>The switch is on \<open>int(e.self.Layer)\<close>: its first case compares with the \<open>int\<close>
  \<open>len(e.doc.Topology) - 1\<close>, its second with the constant.\<close>

definition outgoingLayer :: "cpki \<Rightarrow> pkiCacheEntry \<Rightarrow> 8 word" where
  "outgoingLayer P e =
     (if uint (Layer (self e)) = int (length (Topology (doc e))) - 1 then LayerProvider P
      else if Layer (self e) = LayerProvider P then 0
      else Layer (self e) + 1)"

text \<open>
  \<open>buildMap\<close>: the nodes of the provider list or of one topology layer (an index out of
  range panics) are entered in order, a later descriptor replacing an earlier one with
  the same id.
\<close>

fun insertNodes :: "MixDescriptor list \<Rightarrow> (bytes \<rightharpoonup> MixDescriptor) \<Rightarrow> (bytes \<rightharpoonup> MixDescriptor)" where
  "insertNodes [] m = m"
| "insertNodes (v # nodes) m = insertNodes nodes (m(nodeId (IdentityKey v) \<mapsto> v))"

definition buildMap ::
  "cpki \<Rightarrow> pkiCacheEntry \<Rightarrow> 8 word \<Rightarrow> (bytes \<rightharpoonup> MixDescriptor) \<Rightarrow> failure + (bytes \<rightharpoonup> MixDescriptor)"
where
  "buildMap P e layer m =
     (if layer = LayerProvider P then Inr (insertNodes (Providers (doc e)) m)
      else if unat layer < length (Topology (doc e))
      then Inr (insertNodes (Topology (doc e) ! unat layer) m)
      else Inl (Panics IndexOutOfRange))"

definition newPKICacheEntry :: "cpki \<Rightarrow> Server \<Rightarrow> Document \<Rightarrow> failure + pkiCacheEntry" where
  "newPKICacheEntry P s d =
     (case GetNodeByKey P d (identityKey s) of
        None \<Rightarrow> Inl (Fails NotInConsensus)
      | Some slf \<Rightarrow>
          let e = \<lparr>doc = d, self = slf, incoming = Map.empty, outgoing = Map.empty\<rparr>
          in if length (Topology d) = 0 then Inl (Fails MissingTopology)
             else if Identifier s \<noteq> Name (self e) then Inl (Fails NameMismatch)
             else if \<not> isOurLayerSane P e (IsProvider s) then Inl (Fails InvalidLayer)
             else
               (case buildMap P e (incomingLayer P e) (incoming e) of
                  Inl x \<Rightarrow> Inl x
                | Inr inc \<Rightarrow>
                    (case buildMap P e (outgoingLayer P e) (outgoing e) of
                       Inl x \<Rightarrow> Inl x
                     | Inr out \<Rightarrow> Inr (e\<lparr>incoming := inc, outgoing := out\<rparr>))))"

subsection \<open>Authentication\<close>

text \<open>
  \<open>time.Duration\<close> is a count of nanoseconds; the code only compares durations, so they
  are integers. \<open>epochtime.Now()\<close> returns \<open>(now, elapsed, till)\<close>, passed in as such.
\<close>

definition Minute :: int where
  "Minute = 60 * 1000000000"

definition pkiEarlyConnectSlack :: int where
  "pkiEarlyConnectSlack = 30 * Minute"

definition pkiLateConnectSlack :: int where
  "pkiLateConnectSlack = 3 * Minute"

definition earlySendSlack :: int where
  "earlySendSlack = 2 * Minute"

definition lateSendSlack :: int where
  "lateSendSlack = 2 * Minute"

record PeerCredentials =
  AdditionalData :: bytes
  PublicKey' :: bytes

fun docsForEpochs :: "(64 word \<rightharpoonup> pkiCacheEntry) \<Rightarrow> 64 word list \<Rightarrow> pkiCacheEntry list" where
  "docsForEpochs docs [] = []"
| "docsForEpochs docs (ep # epochs) =
     (case docs ep of
        Some e \<Rightarrow> e # docsForEpochs docs epochs
      | None \<Rightarrow> docsForEpochs docs epochs)"

definition docsForOutgoing ::
  "(64 word \<rightharpoonup> pkiCacheEntry) \<Rightarrow> 64 word \<Rightarrow> int \<Rightarrow> int \<Rightarrow> pkiCacheEntry list \<times> 64 word"
where
  "docsForOutgoing docs now elapsed till =
     (let epochs = [now];
          epochs = (if till < pkiEarlyConnectSlack then epochs @ [now + 1]
                    else if elapsed < pkiLateConnectSlack then epochs @ [now - 1]
                    else epochs)
      in (docsForEpochs docs epochs, now))"

text \<open>
  The loop of \<open>authenticateIncoming\<close> over the entries found, with the value of
  \<open>isValid\<close> so far; the result is \<open>(canSend, isValid)\<close>.
\<close>

fun incomingLoop ::
  "64 word \<Rightarrow> int \<Rightarrow> int \<Rightarrow> bytes \<Rightarrow> PeerCredentials \<Rightarrow> pkiCacheEntry list \<Rightarrow> bool \<Rightarrow> bool \<times> bool"
where
  "incomingLoop now elapsed till ident c [] isValid = (False, isValid)"
| "incomingLoop now elapsed till ident c (d # ds) isValid =
     (case incoming d ident of
        None \<Rightarrow> incomingLoop now elapsed till ident c ds isValid
      | Some m \<Rightarrow>
          if LinkKey m \<noteq> PublicKey' c then incomingLoop now elapsed till ident c ds isValid
          else if Epoch (doc d) = now then (True, True)
          else if Epoch (doc d) = now + 1
          then (if till < earlySendSlack then (True, True)
                else incomingLoop now elapsed till ident c ds True)
          else if Epoch (doc d) = now - 1
          then (if elapsed < lateSendSlack then (True, True)
                else incomingLoop now elapsed till ident c ds True)
          else incomingLoop now elapsed till ident c ds True)"

definition authenticateIncoming ::
  "Server \<Rightarrow> (64 word \<rightharpoonup> pkiCacheEntry) \<Rightarrow> 64 word \<Rightarrow> int \<Rightarrow> int \<Rightarrow> PeerCredentials \<Rightarrow> bool \<times> bool"
where
  "authenticateIncoming s docs now elapsed till c =
     (if DisableMixAuthentication s then (True, True)
      else
        let epochs = [now];
            epochs = (if till < pkiEarlyConnectSlack then epochs @ [now + 1]
                      else if elapsed < pkiLateConnectSlack then epochs @ [now - 1]
                      else epochs)
        in if length (AdditionalData c) \<noteq> NodeIDLength then (False, False)
           else incomingLoop now elapsed till (nodeId (AdditionalData c)) c
                  (docsForEpochs docs epochs) False)"

text \<open>
  The loop of \<open>authenticateOutgoing\<close>, with the values of \<open>desc\<close> and \<open>isValid\<close> so far;
  the result is \<open>(desc, canSend, isValid)\<close>. The length of the additional data is not
  checked here.
\<close>

fun outgoingLoop ::
  "64 word \<Rightarrow> bytes \<Rightarrow> PeerCredentials \<Rightarrow> pkiCacheEntry list \<Rightarrow> MixDescriptor option \<Rightarrow> bool
     \<Rightarrow> MixDescriptor option \<times> bool \<times> bool"
where
  "outgoingLoop now ident c [] desc isValid = (desc, False, isValid)"
| "outgoingLoop now ident c (d # ds) desc isValid =
     (case outgoing d ident of
        None \<Rightarrow> outgoingLoop now ident c ds desc isValid
      | Some m \<Rightarrow>
          if LinkKey m \<noteq> PublicKey' c then outgoingLoop now ident c ds desc isValid
          else if Epoch (doc d) = now then (Some m, True, True)
          else outgoingLoop now ident c ds (Some m) True)"

definition authenticateOutgoing ::
  "Server \<Rightarrow> (64 word \<rightharpoonup> pkiCacheEntry) \<Rightarrow> 64 word \<Rightarrow> int \<Rightarrow> int \<Rightarrow> PeerCredentials
     \<Rightarrow> MixDescriptor option \<times> bool \<times> bool"
where
  "authenticateOutgoing s docs now elapsed till c =
     (if DisableMixAuthentication s then (None, True, True)
      else
        let (ds, now') = docsForOutgoing docs now elapsed till
        in outgoingLoop now' (nodeId (AdditionalData c)) c ds None False)"

subsection \<open>Notions used to state the properties of the cache\<close>

text \<open>
  The layers as the specification words them. Incoming: the provider list when the own
  layer is 0, the last topology layer when it is the provider sentinel, the layer before
  the own one otherwise. Outgoing: the provider list when the own layer is the last of the
  topology, layer 0 when it is the provider sentinel, the layer after the own one
  otherwise.
\<close>

definition spec_incoming_nodes :: "cpki \<Rightarrow> Document \<Rightarrow> MixDescriptor \<Rightarrow> MixDescriptor list" where
  "spec_incoming_nodes P d slf =
     (if Layer slf = 0 then Providers d
      else if Layer slf = LayerProvider P then last (Topology d)
      else Topology d ! (unat (Layer slf) - 1))"

definition spec_outgoing_nodes :: "cpki \<Rightarrow> Document \<Rightarrow> MixDescriptor \<Rightarrow> MixDescriptor list" where
  "spec_outgoing_nodes P d slf =
     (if unat (Layer slf) + 1 = length (Topology d) then Providers d
      else if Layer slf = LayerProvider P then Topology d ! 0
      else Topology d ! (unat (Layer slf) + 1))"

text \<open>
  Modelled from the spec: \<open>Document.GetNodeByKey\<close> is a method of the core library, not of
  this repository; by the specification it locates the descriptor whose identity key
  equals the given one and fails otherwise. It serves as the lookup in the examples.
\<close>

definition spec_GetNodeByKey :: "Document \<Rightarrow> bytes \<Rightarrow> MixDescriptor option" where
  "spec_GetNodeByKey d key = find (\<lambda>v. IdentityKey v = key) (concat (Topology d) @ Providers d)"

text \<open>The node ids of a list of descriptors.\<close>

definition nodeIds :: "MixDescriptor list \<Rightarrow> bytes set" where
  "nodeIds nodes = (\<lambda>v. nodeId (IdentityKey v)) ` set nodes"

text \<open>
  The epochs the specification has authentication search: the current one, the next one
  when less than 30 minutes remain, otherwise the previous one when less than 3 minutes
  have elapsed.
\<close>

definition spec_search_epochs :: "64 word \<Rightarrow> int \<Rightarrow> int \<Rightarrow> 64 word set" where
  "spec_search_epochs now elapsed till =
     {now} \<union> (if till < 30 * Minute then {now + 1}
              else if elapsed < 3 * Minute then {now - 1} else {})"

text \<open>
  An entry lists the peer for incoming (outgoing) connections when its map has a
  descriptor under the peer's id whose link key is the public key presented.
\<close>

definition listsIncoming :: "pkiCacheEntry \<Rightarrow> PeerCredentials \<Rightarrow> bool" where
  "listsIncoming d c =
     (case incoming d (nodeId (AdditionalData c)) of
        None \<Rightarrow> False | Some m \<Rightarrow> LinkKey m = PublicKey' c)"

definition listsOutgoing :: "pkiCacheEntry \<Rightarrow> PeerCredentials \<Rightarrow> bool" where
  "listsOutgoing d c =
     (case outgoing d (nodeId (AdditionalData c)) of
        None \<Rightarrow> False | Some m \<Rightarrow> LinkKey m = PublicKey' c)"

text \<open>The specification's rule for letting an incoming peer send.\<close>

definition spec_may_send :: "64 word \<Rightarrow> int \<Rightarrow> int \<Rightarrow> pkiCacheEntry \<Rightarrow> bool" where
  "spec_may_send now elapsed till d =
     (Epoch (doc d) = now
      \<or> (Epoch (doc d) = now + 1 \<and> till < 2 * Minute)
      \<or> (Epoch (doc d) = now - 1 \<and> elapsed < 2 * Minute))"

section \<open>Properties of the mix key\<close>

lemma length_PutUint64: "length (PutUint64 v) = 8"
  by (simp add: PutUint64_def)

lemma le_step:
  "ucast (ucast (v :: 64 word) :: byte) OR push_bit 8 (take_bit m (drop_bit 8 v)) = take_bit (8 + m) v"
  apply (rule bit_word_eqI)
  apply (simp only: bit_simps)
  apply auto
  done

lemma le_word_le_bytes: "le_word (le_bytes n v) = take_bit (8 * n) v"
proof (induction n arbitrary: v)
  case 0
  show ?case by simp
next
  case (Suc n)
  show ?case by (simp add: Suc le_step)
qed

lemma PutUint64_le: "PutUint64 v = le_bytes 8 v"
  by (simp add: PutUint64_def eval_nat_numeral)

lemma Uint64_le: "length b = 8 \<Longrightarrow> Uint64 b = le_word b"
  by (cases b rule: Uint64.cases) (simp_all add: ac_simps)

lemma Uint64_PutUint64: "Uint64 (PutUint64 v) = v"
proof -
  have "Uint64 (PutUint64 v) = le_word (le_bytes 8 v)"
    by (simp add: Uint64_le length_PutUint64 flip: PutUint64_le)
  also have "\<dots> = take_bit 64 v"
    by (simp add: le_word_le_bytes)
  also have "\<dots> = v"
    by (simp add: take_bit_word_eq_self)
  finally show ?thesis .
qed

subsection \<open>The replay test-and-set\<close>

lemma IsReplay_empty: "IsReplay k [] w = Inr (True, w)"
  by (simp add: IsReplay_def)

lemma inc_zero_iff: "(c :: 64 word) + 1 = 0 \<longleftrightarrow> c = - 1"
  by (simp add: add_eq_0_iff2)

lemma IsReplay_step:
  assumes "tag \<noteq> []" and "db k = Some f" and "files w f = Some fl" and "replay fl = Some bkt"
  shows "IsReplay k tag w =
     Inr (storedCounter bkt tag \<noteq> 0,
          w\<lparr>files := (files w)(f \<mapsto> fl\<lparr>replay :=
              Some (bkt(tag \<mapsto> PutUint64 (satInc (storedCounter bkt tag))))\<rparr>)\<rparr>)"
  using assms
  by (auto simp add: IsReplay_def storedCounter_def satInc_def Let_def inc_zero_iff
      split: option.splits)

lemma storedCounter_upd:
  "storedCounter (bkt(tag \<mapsto> PutUint64 c)) t = (if t = tag then c else storedCounter bkt t)"
  by (simp add: storedCounter_def length_PutUint64 Uint64_PutUint64)

lemma replayBucket_SomeD:
  "replayBucket k w = Some bkt \<Longrightarrow> \<exists>f fl. db k = Some f \<and> files w f = Some fl \<and> replay fl = Some bkt"
  by (auto simp add: replayBucket_def split: option.splits)

lemma satInc_nonzero: "satInc c \<noteq> 0"
  by (simp add: satInc_def inc_zero_iff)

lemma IsReplay_replayBucket:
  assumes "tag \<noteq> []" and "replayBucket k w = Some bkt"
  shows "\<exists>w'. IsReplay k tag w = Inr (storedCounter bkt tag \<noteq> 0, w') \<and>
     replayBucket k w' = Some (bkt(tag \<mapsto> PutUint64 (satInc (storedCounter bkt tag))))"
proof -
  from assms(2) obtain f fl where h: "db k = Some f" "files w f = Some fl" "replay fl = Some bkt"
    by (auto dest: replayBucket_SomeD)
  show ?thesis
    by (simp add: IsReplay_step [OF assms(1) h] replayBucket_def h)
qed

lemma IsReplay_run_verdicts:
  assumes "replayBucket k w = Some bkt"
  shows "\<exists>vs w'. IsReplay_run k ts w = Inr (vs, w') \<and> length vs = length ts \<and>
     (\<exists>bkt'. replayBucket k w' = Some bkt' \<and>
        (\<forall>t. storedCounter bkt' t \<noteq> 0 \<longleftrightarrow> storedCounter bkt t \<noteq> 0 \<or> (t \<noteq> [] \<and> t \<in> set ts))) \<and>
     (\<forall>i < length ts. vs ! i =
        (ts ! i = [] \<or> storedCounter bkt (ts ! i) \<noteq> 0 \<or> ts ! i \<in> set (take i ts)))"
  using assms
proof (induction ts arbitrary: w bkt)
  case Nil
  then show ?case by simp
next
  case (Cons t ts)
  show ?case
  proof (cases "t = []")
    case True
    from Cons.IH [OF Cons.prems] obtain vs w' bkt' where
      r: "IsReplay_run k ts w = Inr (vs, w')" "length vs = length ts"
         "replayBucket k w' = Some bkt'"
         "\<forall>t. storedCounter bkt' t \<noteq> 0 \<longleftrightarrow> storedCounter bkt t \<noteq> 0 \<or> (t \<noteq> [] \<and> t \<in> set ts)"
         "\<forall>i < length ts. vs ! i =
            (ts ! i = [] \<or> storedCounter bkt (ts ! i) \<noteq> 0 \<or> ts ! i \<in> set (take i ts))"
      by blast
    have "\<forall>i < length (t # ts). (True # vs) ! i =
        ((t # ts) ! i = [] \<or> storedCounter bkt ((t # ts) ! i) \<noteq> 0 \<or> (t # ts) ! i \<in> set (take i (t # ts)))"
    proof (intro allI impI)
      fix i assume "i < length (t # ts)"
      then show "(True # vs) ! i =
        ((t # ts) ! i = [] \<or> storedCounter bkt ((t # ts) ! i) \<noteq> 0 \<or> (t # ts) ! i \<in> set (take i (t # ts)))"
        using r(5) True by (cases i) auto
    qed
    with r True show ?thesis
      by (auto simp add: IsReplay_empty)
  next
    case False
    define bkt1 where "bkt1 = bkt(t \<mapsto> PutUint64 (satInc (storedCounter bkt t)))"
    from IsReplay_replayBucket [OF False Cons.prems] obtain w1 where
      s: "IsReplay k t w = Inr (storedCounter bkt t \<noteq> 0, w1)" "replayBucket k w1 = Some bkt1"
      by (auto simp add: bkt1_def)
    have c1: "storedCounter bkt1 x \<noteq> 0 \<longleftrightarrow> x = t \<or> storedCounter bkt x \<noteq> 0" for x
      by (simp add: bkt1_def storedCounter_upd satInc_nonzero)
    from Cons.IH [OF s(2)] obtain vs w' bkt' where
      r: "IsReplay_run k ts w1 = Inr (vs, w')" "length vs = length ts"
         "replayBucket k w' = Some bkt'"
         "\<forall>x. storedCounter bkt' x \<noteq> 0 \<longleftrightarrow> storedCounter bkt1 x \<noteq> 0 \<or> (x \<noteq> [] \<and> x \<in> set ts)"
         "\<forall>i < length ts. vs ! i =
            (ts ! i = [] \<or> storedCounter bkt1 (ts ! i) \<noteq> 0 \<or> ts ! i \<in> set (take i ts))"
      by blast
    have "\<forall>i < length (t # ts). ((storedCounter bkt t \<noteq> 0) # vs) ! i =
        ((t # ts) ! i = [] \<or> storedCounter bkt ((t # ts) ! i) \<noteq> 0 \<or> (t # ts) ! i \<in> set (take i (t # ts)))"
    proof (intro allI impI)
      fix i assume "i < length (t # ts)"
      then show "((storedCounter bkt t \<noteq> 0) # vs) ! i =
        ((t # ts) ! i = [] \<or> storedCounter bkt ((t # ts) ! i) \<noteq> 0 \<or> (t # ts) ! i \<in> set (take i (t # ts)))"
        using r(5) False c1 by (cases i) auto
    qed
    moreover have "\<forall>x. storedCounter bkt' x \<noteq> 0 \<longleftrightarrow> storedCounter bkt x \<noteq> 0 \<or> (x \<noteq> [] \<and> x \<in> set (t # ts))"
      using r(4) c1 False by auto
    ultimately show ?thesis
      using r(1,2,3) s(1) by simp
  qed
qed

lemma IsReplay_run_last:
  assumes "tag \<noteq> []" and "replayBucket k w = Some bkt" and "storedCounter bkt tag \<noteq> 0"
  shows "\<exists>vs w'. IsReplay_run k (ts @ [tag]) w = Inr (vs @ [True], w')"
proof -
  from IsReplay_run_verdicts [OF assms(2), of "ts @ [tag]"] obtain vs w' where
    r: "IsReplay_run k (ts @ [tag]) w = Inr (vs, w')" "length vs = length (ts @ [tag])"
       "\<forall>i < length (ts @ [tag]). vs ! i =
          ((ts @ [tag]) ! i = [] \<or> storedCounter bkt ((ts @ [tag]) ! i) \<noteq> 0
            \<or> (ts @ [tag]) ! i \<in> set (take i (ts @ [tag])))"
    by blast
  from r(3) have t: "vs ! length ts" using assms(3) by (simp add: nth_append)
  from r(2) have ne: "vs \<noteq> []" by auto
  then have "last vs = vs ! (length vs - 1)" by (rule last_conv_nth)
  with t r(2) have lt: "last vs = True" by simp
  note e = append_butlast_last_id [OF ne, unfolded lt]
  have "IsReplay_run k (ts @ [tag]) w = Inr (butlast vs @ [True], w')"
    using r(1) by (simp only: e)
  then show ?thesis by blast
qed

text \<open>
  Claim C1. For every key and every non-empty tag, \<open>IsReplay\<close> is a test-and-set on the
  replay bucket of an open key: it returns true iff the counter stored for the tag was
  nonzero before the call, and leaves the counter incremented with saturation at the
  maximum and every other entry as it was. So the first call on a tag whose counter is 0
  returns false, and after a call on a tag every later call on it, whatever calls come in
  between, returns true. For the empty tag \<open>IsReplay\<close> returns true and changes nothing.
\<close>

theorem C1_IsReplay_test_and_set:
  "IsReplay k [] w = Inr (True, w) \<and>
   (tag \<noteq> [] \<and> replayBucket k w = Some bkt \<longrightarrow>
      (\<exists>w' bkt'. IsReplay k tag w = Inr (storedCounter bkt tag \<noteq> 0, w') \<and>
         replayBucket k w' = Some bkt' \<and>
         storedCounter bkt' tag = satInc (storedCounter bkt tag) \<and>
         (\<forall>t. t \<noteq> tag \<longrightarrow> bkt' t = bkt t) \<and>
         (\<forall>ts. \<exists>vs w''. IsReplay_run k (ts @ [tag]) w' = Inr (vs @ [True], w''))))"
proof (intro conjI impI)
  show "IsReplay k [] w = Inr (True, w)" by (rule IsReplay_empty)
next
  assume a: "tag \<noteq> [] \<and> replayBucket k w = Some bkt"
  define bkt' where "bkt' = bkt(tag \<mapsto> PutUint64 (satInc (storedCounter bkt tag)))"
  from a IsReplay_replayBucket [of tag k w bkt] obtain w' where
    s: "IsReplay k tag w = Inr (storedCounter bkt tag \<noteq> 0, w')" "replayBucket k w' = Some bkt'"
    by (auto simp add: bkt'_def)
  have c: "storedCounter bkt' tag = satInc (storedCounter bkt tag)"
    by (simp add: bkt'_def storedCounter_upd)
  then have nz: "storedCounter bkt' tag \<noteq> 0" by (simp add: satInc_nonzero)
  have o: "\<forall>t. t \<noteq> tag \<longrightarrow> bkt' t = bkt t" by (simp add: bkt'_def)
  have l: "\<forall>ts. \<exists>vs w''. IsReplay_run k (ts @ [tag]) w' = Inr (vs @ [True], w'')"
    using IsReplay_run_last [OF _ s(2) nz] a by blast
  from s c o l show "\<exists>w' bkt'. IsReplay k tag w = Inr (storedCounter bkt tag \<noteq> 0, w') \<and>
         replayBucket k w' = Some bkt' \<and>
         storedCounter bkt' tag = satInc (storedCounter bkt tag) \<and>
         (\<forall>t. t \<noteq> tag \<longrightarrow> bkt' t = bkt t) \<and>
         (\<forall>ts. \<exists>vs w''. IsReplay_run k (ts @ [tag]) w' = Inr (vs @ [True], w''))"
    by blast
qed

theorem C1_IsReplay_witness:
  "\<exists>w' bkt'.
     IsReplay \<lparr>db = Some (''data'', 100), keypair = Some (), epoch = 100, refCount = 1,
               unlinkIfExpired = False\<rparr> [170, 187]
       \<lparr>files = [(''data'', 100) \<mapsto> \<lparr>metadata = Some Map.empty, replay = Some Map.empty\<rparr>],
        trace = []\<rparr> = Inr (False, w') \<and>
     replayBucket \<lparr>db = Some (''data'', 100), keypair = Some (), epoch = 100, refCount = 1,
               unlinkIfExpired = False\<rparr> w' = Some bkt' \<and>
     storedCounter bkt' [170, 187] = 1 \<and>
     (\<exists>vs w''. IsReplay_run \<lparr>db = Some (''data'', 100), keypair = Some (), epoch = 100,
               refCount = 1, unlinkIfExpired = False\<rparr> ([[1], [], [170, 187]] @ [[170, 187]]) w'
          = Inr (vs @ [True], w''))"
proof -
  let ?k = "\<lparr>db = Some (''data'', 100), keypair = Some (), epoch = 100, refCount = 1,
               unlinkIfExpired = False\<rparr>"
  let ?w = "\<lparr>files = [(''data'', 100) \<mapsto> \<lparr>metadata = Some Map.empty, replay = Some Map.empty\<rparr>],
        trace = []\<rparr> :: unit world"
  have h: "[170, 187] \<noteq> ([] :: bytes) \<and> replayBucket ?k ?w = Some Map.empty"
    by (simp add: replayBucket_def)
  have c: "storedCounter Map.empty [170, 187] = 0" "satInc 0 = 1"
    by (simp_all add: storedCounter_def satInc_def)
  from C1_IsReplay_test_and_set [of ?k ?w "[170, 187]" Map.empty, THEN conjunct2, THEN mp, OF h]
  obtain w' bkt' where
    r: "IsReplay ?k [170, 187] ?w = Inr (storedCounter Map.empty [170, 187] \<noteq> 0, w')"
       "replayBucket ?k w' = Some bkt'"
       "storedCounter bkt' [170, 187] = satInc (storedCounter Map.empty [170, 187])"
       "\<forall>ts. \<exists>vs w''. IsReplay_run ?k (ts @ [[170, 187]]) w' = Inr (vs @ [True], w'')"
    by blast
  from r(4) have "\<exists>vs w''. IsReplay_run ?k ([[1], [], [170, 187]] @ [[170, 187]]) w' = Inr (vs @ [True], w'')"
    by (rule spec)
  with r(1,2,3) c show ?thesis by auto
qed

subsection \<open>The reference count\<close>

lemma sint_succ32: "sint (x :: 32 word) < 2147483647 \<Longrightarrow> sint (x + 1) = sint x + 1"
  using sint_ge [of x]
  by (simp add: sint_word_add signed_take_bit_int_eq_self)

lemma sint_pred32: "- 2147483648 < sint (x :: 32 word) \<Longrightarrow> sint (x - 1) = sint x - 1"
  using sint_lt [of x]
  by (simp add: sint_word_diff signed_take_bit_int_eq_self)

lemma sint_max32: "sint (x :: 32 word) = 2147483647 \<Longrightarrow> sint (x + 1) = - 2147483648"
proof -
  assume "sint x = 2147483647"
  then have "word_of_int (sint x) = (word_of_int 2147483647 :: 32 word)" by simp
  then have "x = 2147483647" by simp
  then show ?thesis by simp
qed

lemma sint_zero32: "sint (x :: 32 word) = 0 \<longleftrightarrow> x = 0"
proof
  assume "sint x = 0"
  then have "word_of_int (sint x) = (0 :: 32 word)" by simp
  then show "x = 0" by simp
qed simp

lemma Ref_Inr:
  assumes "Ref k = Inr k'"
  shows "k' = k\<lparr>refCount := refCount k + 1\<rparr> \<and> 1 < sint (refCount k')
     \<and> (1 \<le> sint (refCount k) \<longrightarrow> sint (refCount k') = sint (refCount k) + 1)"
proof -
  from assms have k': "k' = k\<lparr>refCount := refCount k + 1\<rparr>" and gt: "1 < sint (refCount k + 1)"
    by (auto simp add: Ref_def Let_def split: if_splits)
  have "sint (refCount k + 1) = sint (refCount k) + 1" if "1 \<le> sint (refCount k)"
  proof (cases "sint (refCount k) = 2147483647")
    case True
    then show ?thesis using gt sint_max32 [of "refCount k"] by simp
  next
    case False
    then show ?thesis using sint_lt [of "refCount k"] by (simp add: sint_succ32)
  qed
  with k' gt show ?thesis by simp
qed

lemma Ref_panics: "sint (refCount k) \<le> 0 \<Longrightarrow> Ref k = Inl (Panics RefcountZeroOrNegative)"
  using sint_ge [of "refCount k"]
  by (simp add: Ref_def Let_def sint_succ32)

lemma Deref_panics:
  "sint (refCount k - 1) < 0 \<Longrightarrow> Deref now k w = Inl (Panics RefcountNegative)"
  by (auto simp add: Deref_def Let_def)

lemma forceClose_open:
  assumes "db k = Some f"
  shows "db (fst (forceClose now k w)) = None \<and> keypair (fst (forceClose now k w)) = None
     \<and> refCount (fst (forceClose now k w)) = refCount k
     \<and> closes f (snd (forceClose now k w)) = closes f w + 1"
  using assms
  by (auto simp add: forceClose_def Let_def closes_def flush_def db_Close_def os_Remove_def
      keypair_Reset_def split: option.splits)

lemma Deref_Inr:
  assumes "Deref now k w = Inr (k', w')" and "1 \<le> sint (refCount k)" and "db k = Some f"
  shows "sint (refCount k') = sint (refCount k) - 1 \<and>
     (if sint (refCount k) = 1
      then refCount k' = 0 \<and> db k' = None \<and> closes f w' = closes f w + 1
      else 1 \<le> sint (refCount k') \<and> db k' = Some f \<and> w' = w)"
proof -
  have p: "sint (refCount k - 1) = sint (refCount k) - 1"
    using assms(2) by (simp add: sint_pred32)
  show ?thesis
  proof (cases "refCount k - 1 = 0")
    case True
    then have one: "sint (refCount k) = 1" using p by simp
    from True assms(1) have r: "(k', w') = forceClose now (k\<lparr>refCount := 0\<rparr>) w"
      by (simp add: Deref_def Let_def)
    have "db (k\<lparr>refCount := 0\<rparr>) = Some f" using assms(3) by simp
    from forceClose_open [OF this, of now w] r [symmetric] one show ?thesis
      by simp
  next
    case False
    then have ne: "sint (refCount k) \<noteq> 1" using p sint_zero32 [of "refCount k - 1"] by simp
    from False assms(1) have "k' = k\<lparr>refCount := refCount k - 1\<rparr>" "w' = w" "\<not> sint (refCount k - 1) < 0"
      by (auto simp add: Deref_def Let_def split: if_splits)
    with p ne assms(2,3) show ?thesis by simp
  qed
qed

lemma closed_run:
  assumes "refCount k = 0" and "refop_run ops k w = Inr (k', w')"
  shows "ops = []"
proof (cases ops)
  case Nil
  then show ?thesis by simp
next
  case (Cons op rest)
  show ?thesis
  proof (cases op)
    case OpRef
    have "Ref k = Inl (Panics RefcountZeroOrNegative)" using assms(1) by (simp add: Ref_panics)
    with assms(2) Cons OpRef show ?thesis by simp
  next
    case (OpDeref now)
    have "Deref now k w = Inl (Panics RefcountNegative)" using assms(1) by (simp add: Deref_panics)
    with assms(2) Cons OpDeref show ?thesis by simp
  qed
qed

lemma refop_run_inv:
  assumes "refop_run ops k w = Inr (k', w')" and "1 \<le> sint (refCount k)" and "db k = Some f"
  shows "sint (refCount k') =
       sint (refCount k) + int (length (filter (\<lambda>op. \<not> isDeref op) ops)) - int (length (filter isDeref ops))
     \<and> (if refCount k' = 0
         then db k' = None \<and> closes f w' = closes f w + 1 \<and> ops \<noteq> [] \<and> isDeref (last ops)
           \<and> (\<exists>k1. refop_run (butlast ops) k w = Inr (k1, w) \<and> sint (refCount k1) = 1)
         else 1 \<le> sint (refCount k') \<and> db k' = Some f \<and> w' = w)"
  using assms
proof (induction ops arbitrary: k)
  case Nil
  then show ?case using sint_zero32 [of "refCount k"] by auto
next
  case (Cons op ops)
  show ?case
  proof (cases op)
    case OpRef
    with Cons.prems(1) obtain k1 where k1: "Ref k = Inr k1" and r: "refop_run ops k1 w = Inr (k', w')"
      by (auto split: sum.splits)
    from Ref_Inr [OF k1] Cons.prems(2,3) have s: "sint (refCount k1) = sint (refCount k) + 1" "db k1 = Some f"
      by auto
    then have "1 \<le> sint (refCount k1)" using Cons.prems(2) by simp
    from Cons.IH [OF r this s(2)] s(1) OpRef k1 show ?thesis
      by (auto simp add: isDeref_def split: if_splits)
  next
    case (OpDeref now)
    with Cons.prems(1) obtain k1 w1 where k1: "Deref now k w = Inr (k1, w1)"
      and r: "refop_run ops k1 w1 = Inr (k', w')"
      by (auto split: sum.splits)
    note d = Deref_Inr [OF k1 Cons.prems(2,3)]
    show ?thesis
    proof (cases "sint (refCount k) = 1")
      case True
      with d have c: "refCount k1 = 0" "db k1 = None" "closes f w1 = closes f w + 1" by auto
      from closed_run [OF c(1) r] have "ops = []" .
      with r have "k' = k1" "w' = w1" by auto
      with c True OpDeref \<open>ops = []\<close> show ?thesis
        by (simp add: isDeref_def)
    next
      case False
      with d have c: "sint (refCount k1) = sint (refCount k) - 1" "1 \<le> sint (refCount k1)"
        "db k1 = Some f" "w1 = w" by auto
      from Cons.IH [OF r [unfolded c(4)] c(2,3)] c(1) OpDeref k1 c(4) show ?thesis
        by (auto simp add: isDeref_def split: if_splits)
    qed
  qed
qed

lemma Deref_succeeds:
  assumes "1 \<le> sint (refCount k)"
  shows "\<exists>k' w'. Deref now k w = Inr (k', w')"
proof -
  have "sint (refCount k - 1) = sint (refCount k) - 1"
    using assms by (simp add: sint_pred32)
  with assms have "\<not> sint (refCount k - 1) < 0" by simp
  then show ?thesis
    by (cases "forceClose now (k\<lparr>refCount := 0\<rparr>) w") (auto simp add: Deref_def Let_def)
qed

lemma Ref_succeeds:
  assumes "1 \<le> sint (refCount k)" and "sint (refCount k) < 2147483647"
  shows "\<exists>k'. Ref k = Inr k'"
  using assms by (simp add: Ref_def Let_def sint_succ32)

lemma alternating_run:
  assumes "refCount k = 1"
  shows "refop_run (concat (replicate N [OpRef, OpDeref now]) @ ops) k w = refop_run ops k w"
proof (induction N)
  case 0
  show ?case by simp
next
  case (Suc N)
  have "Ref k = Inr (k\<lparr>refCount := 2\<rparr>)" using assms by (simp add: Ref_def)
  moreover have "Deref now (k\<lparr>refCount := 2\<rparr>) w = Inr (k, w)"
    using assms by (simp add: Deref_def)
  ultimately show ?case using Suc by simp
qed

lemma Refs_run:
  assumes "1 \<le> sint (refCount k)" and "sint (refCount k) + int n \<le> 2147483647"
  shows "\<exists>k'. refop_run (replicate n OpRef @ ops) k w = refop_run ops k' w
     \<and> sint (refCount k') = sint (refCount k) + int n \<and> db k' = db k"
  using assms
proof (induction n arbitrary: k)
  case 0
  show ?case by auto
next
  case (Suc n)
  from Suc.prems Ref_succeeds [of k] obtain k1 where k1: "Ref k = Inr k1" by auto
  from Ref_Inr [OF k1] Suc.prems(1) have s: "sint (refCount k1) = sint (refCount k) + 1" "db k1 = db k"
    by auto
  with Suc.prems have "1 \<le> sint (refCount k1)" "sint (refCount k1) + int n \<le> 2147483647" by auto
  from Suc.IH [OF this] s k1 show ?case by auto
qed

lemma Derefs_run:
  assumes "sint (refCount k) = int (Suc n)" and "db k = Some f"
  shows "\<exists>k' w'. refop_run (replicate (Suc n) (OpDeref now)) k w = Inr (k', w')"
  using assms
proof (induction n arbitrary: k w)
  case 0
  then have "1 \<le> sint (refCount k)" by simp
  from Deref_succeeds [OF this, of now w] show ?case by auto
next
  case (Suc n)
  then have one: "1 \<le> sint (refCount k)" by simp
  from Deref_succeeds [OF this, of now w] obtain k1 w1 where d: "Deref now k w = Inr (k1, w1)" by auto
  from Deref_Inr [OF d one Suc.prems(2)] Suc.prems(1)
  have "sint (refCount k1) = int (Suc n)" "db k1 = Some f" by (auto split: if_splits)
  from Suc.IH [OF this, of w1] d show ?case by auto
qed

text \<open>
  Claim C3. A key starts with the reference count 1 that \<open>New\<close> gives it and an open
  database. Every run of \<open>N\<close> \<open>Ref\<close> calls and \<open>N + 1\<close> \<open>Deref\<close> calls (the \<open>N\<close> balancing
  ones and the one for the initial reference) that does not panic ends with the count at
  zero and has closed the database exactly once: at its last call, a \<open>Deref\<close>, the first
  to bring the count to zero, every call before it leaving the world untouched. Such runs
  exist for every \<open>N\<close> (taking and dropping one reference at a time), and with all \<open>N\<close>
  references held at once for every \<open>N\<close> the \<open>int32\<close> count can hold. A \<open>Ref\<close> at a
  count that is zero or negative panics, and so does a \<open>Deref\<close> that takes the count
  below zero.
\<close>

theorem C3_refcount_closes_once:
  "(refCount k = 1 \<and> db k = Some f \<longrightarrow>
      (\<forall>ops k' w'.
          refop_run ops k w = Inr (k', w') \<and>
          length (filter isDeref ops) = length (filter (\<lambda>op. \<not> isDeref op) ops) + 1 \<longrightarrow>
            refCount k' = 0 \<and> db k' = None \<and> closes f w' = closes f w + 1 \<and>
            ops \<noteq> [] \<and> isDeref (last ops) \<and>
            (\<exists>k1. refop_run (butlast ops) k w = Inr (k1, w) \<and> sint (refCount k1) = 1)) \<and>
      (\<forall>N. \<exists>k' w'.
          refop_run (concat (replicate N [OpRef, OpDeref now]) @ [OpDeref now]) k w = Inr (k', w')) \<and>
      (\<forall>N < 2147483647. \<exists>k' w'.
          refop_run (replicate N OpRef @ replicate (N + 1) (OpDeref now)) k w = Inr (k', w'))) \<and>
   (sint (refCount k) \<le> 0 \<longrightarrow> Ref k = Inl (Panics RefcountZeroOrNegative)) \<and>
   (sint (refCount k - 1) < 0 \<longrightarrow> Deref now k w = Inl (Panics RefcountNegative))"
proof (intro conjI impI allI)
  fix ops k' w'
  assume a: "refCount k = 1 \<and> db k = Some f"
    and b: "refop_run ops k w = Inr (k', w') \<and>
      length (filter isDeref ops) = length (filter (\<lambda>op. \<not> isDeref op) ops) + 1"
  from a have one: "1 \<le> sint (refCount k)" by simp
  note inv = refop_run_inv [OF b [THEN conjunct1] one a [THEN conjunct2]]
  have "sint (refCount k') = sint (refCount k) +
      int (length (filter (\<lambda>op. \<not> isDeref op) ops)) - int (length (filter isDeref ops))"
    by (rule inv [THEN conjunct1])
  also have "\<dots> = 0" using a b by simp
  finally have z': "refCount k' = 0" by (simp only: sint_zero32)
  note r = inv [THEN conjunct2]
  from z' r show "refCount k' = 0" "db k' = None" "closes f w' = closes f w + 1"
    "ops \<noteq> []" "isDeref (last ops)"
    "\<exists>k1. refop_run (butlast ops) k w = Inr (k1, w) \<and> sint (refCount k1) = 1"
    by simp_all
next
  fix N
  assume a: "refCount k = 1 \<and> db k = Some f"
  then have "1 \<le> sint (refCount k)" by simp
  from Deref_succeeds [OF this, of now w] a
  show "\<exists>k' w'. refop_run (concat (replicate N [OpRef, OpDeref now]) @ [OpDeref now]) k w = Inr (k', w')"
    by (auto simp add: alternating_run)
next
  fix N :: nat
  assume a: "refCount k = 1 \<and> db k = Some f" and n: "N < 2147483647"
  then have "1 \<le> sint (refCount k)" "sint (refCount k) + int N \<le> 2147483647" by simp_all
  from Refs_run [OF this, of "replicate (N + 1) (OpDeref now)" w] a obtain k1 where
    k1: "refop_run (replicate N OpRef @ replicate (N + 1) (OpDeref now)) k w =
           refop_run (replicate (N + 1) (OpDeref now)) k1 w"
        "sint (refCount k1) = int (Suc N)" "db k1 = Some f"
    by auto
  from Derefs_run [OF k1(2,3), of now w] k1(1)
  show "\<exists>k' w'. refop_run (replicate N OpRef @ replicate (N + 1) (OpDeref now)) k w = Inr (k', w')"
    by simp
next
  assume "sint (refCount k) \<le> 0"
  then show "Ref k = Inl (Panics RefcountZeroOrNegative)" by (rule Ref_panics)
next
  assume "sint (refCount k - 1) < 0"
  then show "Deref now k w = Inl (Panics RefcountNegative)" by (rule Deref_panics)
qed

theorem C3_refcount_witness:
  "\<exists>k' w'.
     refop_run [OpRef, OpRef, OpDeref 100, OpDeref 101, OpDeref 103]
       \<lparr>db = Some (''data'', 100), keypair = Some (), epoch = 100, refCount = 1,
        unlinkIfExpired = False\<rparr>
       \<lparr>files = [(''data'', 100) \<mapsto> \<lparr>metadata = Some Map.empty, replay = Some Map.empty\<rparr>],
        trace = []\<rparr> = Inr (k', w') \<and>
     refCount k' = 0 \<and> db k' = None \<and> closes (''data'', 100) w' = 1"
proof -
  let ?k = "\<lparr>db = Some (''data'', 100), keypair = Some (), epoch = 100, refCount = 1,
        unlinkIfExpired = False\<rparr>"
  let ?w = "\<lparr>files = [(''data'', 100) \<mapsto> \<lparr>metadata = Some Map.empty, replay = Some Map.empty\<rparr>],
        trace = []\<rparr> :: unit world"
  let ?ops = "[OpRef, OpRef, OpDeref 100, OpDeref 101, OpDeref 103]"
  have h: "refCount ?k = 1 \<and> db ?k = Some (''data'', 100)" by simp
  have run: "refop_run ?ops ?k ?w =
      Inr (\<lparr>db = None, keypair = None, epoch = 100, refCount = 0, unlinkIfExpired = False\<rparr>,
           \<lparr>files = [(''data'', 100) \<mapsto> \<lparr>metadata = Some Map.empty, replay = Some Map.empty\<rparr>],
            trace = [DbSync (''data'', 100), DbClose (''data'', 100), KeyReset ()]\<rparr>)"
    by (simp add: Ref_def Deref_def forceClose_def flush_def db_Close_def keypair_Reset_def)
  have cnt: "length (filter isDeref ?ops) = length (filter (\<lambda>op. \<not> isDeref op) ?ops) + 1"
    by (simp add: isDeref_def)
  let ?k' = "\<lparr>db = None, keypair = None, epoch = 100, refCount = 0, unlinkIfExpired = False\<rparr> :: unit MixKey"
  let ?w' = "\<lparr>files = [(''data'', 100) \<mapsto> \<lparr>metadata = Some Map.empty, replay = Some Map.empty\<rparr>],
            trace = [DbSync (''data'', 100), DbClose (''data'', 100), KeyReset ()]\<rparr>"
  from C3_refcount_closes_once [of ?k "(''data'', 100)" ?w 0, THEN conjunct1, THEN mp, OF h,
      THEN conjunct1, THEN spec, THEN spec, THEN spec, THEN mp, OF conjI [OF run cnt]]
  have r: "refCount ?k' = 0 \<and> db ?k' = None \<and> closes (''data'', 100) ?w' = closes (''data'', 100) ?w + 1"
    by blast
  have "closes (''data'', 100) ?w = 0" by (simp add: closes_def)
  with r show ?thesis unfolding run by simp
qed

subsection \<open>Closing a key\<close>

lemma forceClose_eq:
  assumes "db k = Some f" and "keypair k = Some kp"
  shows "forceClose now k w =
     (k\<lparr>db := None, keypair := None\<rparr>,
      w\<lparr>files := (if unlinkIfExpired k \<and> epoch k < now - 1 then (files w)(f := None) else files w),
        trace := trace w @ [DbSync f, DbClose f]
           @ (if unlinkIfExpired k \<and> epoch k < now - 1 then [OsRemove f] else [])
           @ [KeyReset kp]\<rparr>)"
  using assms
  by (simp add: forceClose_def Let_def flush_def db_Close_def os_Remove_def keypair_Reset_def)

lemma Deref_last: "refCount k = 1 \<Longrightarrow> Deref now k w = Inr (forceClose now (k\<lparr>refCount := 0\<rparr>) w)"
  by (simp add: Deref_def)

lemma expired_no_wrap:
  assumes "now \<noteq> (0 :: 64 word)"
  shows "e < now - 1 \<longleftrightarrow> unat e + 1 < unat now"
proof -
  from assms have "unat now \<noteq> 0" by (simp add: unat_eq_0)
  then have "unat (now - 1) = unat now - 1"
    by (simp add: unat_minus_one assms)
  then show ?thesis using \<open>unat now \<noteq> 0\<close> by (auto simp add: word_less_nat_alt)
qed

text \<open>
  Claim C4. The \<open>Deref\<close> that takes the reference count from one to zero runs
  \<open>forceClose\<close>. On a key with an open database and a key pair, \<open>forceClose\<close> flushes and
  closes the database, drops the handle, resets the private key material and drops it,
  and unlinks the database file if and only if \<open>unlinkIfExpired\<close> is set and the key's
  epoch is below \<open>now - 1\<close>, \<open>now\<close> being the epoch of the clock at close time; otherwise
  every file stays on disk. The comparison is the code's, on \<open>uint64\<close>: for \<open>now\<close> other
  than 0 it says that the key's epoch plus one is below \<open>now\<close>.
\<close>

theorem C4_forceClose:
  "(refCount k = 1 \<longrightarrow> Deref now k w = Inr (forceClose now (k\<lparr>refCount := 0\<rparr>) w)) \<and>
   (db k = Some f \<and> keypair k = Some kp \<longrightarrow>
      forceClose now k w =
        (k\<lparr>db := None, keypair := None\<rparr>,
         w\<lparr>files := (if unlinkIfExpired k \<and> epoch k < now - 1
                     then (files w)(f := None) else files w),
           trace := trace w @ [DbSync f, DbClose f]
              @ (if unlinkIfExpired k \<and> epoch k < now - 1 then [OsRemove f] else [])
              @ [KeyReset kp]\<rparr>)) \<and>
   (now \<noteq> 0 \<longrightarrow> (epoch k < now - 1 \<longleftrightarrow> unat (epoch k) + 1 < unat now))"
  using forceClose_eq [of k f kp now w] Deref_last [of k now w] expired_no_wrap [of now "epoch k"]
  by blast

theorem C4_forceClose_witness:
  "Deref 103 \<lparr>db = Some (''data'', 100), keypair = Some (), epoch = 100, refCount = 1,
              unlinkIfExpired = True\<rparr>
     \<lparr>files = [(''data'', 100) \<mapsto> \<lparr>metadata = Some Map.empty, replay = Some Map.empty\<rparr>],
      trace = []\<rparr>
   = Inr (\<lparr>db = None, keypair = None, epoch = 100, refCount = 0, unlinkIfExpired = True\<rparr>,
          \<lparr>files = Map.empty,
           trace = [DbSync (''data'', 100), DbClose (''data'', 100), OsRemove (''data'', 100),
                    KeyReset ()]\<rparr>) \<and>
   Deref 101 \<lparr>db = Some (''data'', 100), keypair = Some (), epoch = 100, refCount = 1,
              unlinkIfExpired = True\<rparr>
     \<lparr>files = [(''data'', 100) \<mapsto> \<lparr>metadata = Some Map.empty, replay = Some Map.empty\<rparr>],
      trace = []\<rparr>
   = Inr (\<lparr>db = None, keypair = None, epoch = 100, refCount = 0, unlinkIfExpired = True\<rparr>,
          \<lparr>files = [(''data'', 100) \<mapsto> \<lparr>metadata = Some Map.empty, replay = Some Map.empty\<rparr>],
           trace = [DbSync (''data'', 100), DbClose (''data'', 100), KeyReset ()]\<rparr>)"
proof -
  let ?k = "\<lparr>db = Some (''data'', 100), keypair = Some (), epoch = 100, refCount = 1,
              unlinkIfExpired = True\<rparr>"
  let ?w = "\<lparr>files = [(''data'', 100) \<mapsto> \<lparr>metadata = Some Map.empty, replay = Some Map.empty\<rparr>],
      trace = []\<rparr> :: unit world"
  have h1: "refCount ?k = 1" by simp
  have h2: "db (?k\<lparr>refCount := 0\<rparr>) = Some (''data'', 100) \<and> keypair (?k\<lparr>refCount := 0\<rparr>) = Some ()"
    by simp
  note a = C4_forceClose [of ?k 103 ?w, THEN conjunct1, THEN mp, OF h1]
  note b = C4_forceClose [of "?k\<lparr>refCount := 0\<rparr>" 103 ?w "(''data'', 100)" "()",
      THEN conjunct2, THEN conjunct1, THEN mp, OF h2]
  note c = C4_forceClose [of ?k 101 ?w, THEN conjunct1, THEN mp, OF h1]
  note d = C4_forceClose [of "?k\<lparr>refCount := 0\<rparr>" 101 ?w "(''data'', 100)" "()",
      THEN conjunct2, THEN conjunct1, THEN mp, OF h2]
  show ?thesis
    unfolding a b c d by simp
qed

subsection \<open>Corrupt replay counters\<close>

lemma IsReplay_fails_iff:
  "(\<exists>e. IsReplay k tag w = Inl e) \<longleftrightarrow> tag \<noteq> [] \<and> replayBucket k w = None"
  by (auto simp add: IsReplay_def replayBucket_def Let_def split: option.splits)

lemma IsReplay_bad_length:
  assumes "tag \<noteq> []" and "replayBucket k w = Some bkt" and "bkt tag = Some b" and "length b \<noteq> 8"
  shows "\<exists>w'. IsReplay k tag w = Inr (False, w') \<and> replayBucket k w' = Some (bkt(tag \<mapsto> PutUint64 1))"
proof -
  from assms(3,4) have "storedCounter bkt tag = 0" by (simp add: storedCounter_def)
  with IsReplay_replayBucket [OF assms(1,2)] show ?thesis by (simp add: satInc_def)
qed

text \<open>
  Claim C9 says that a stored replay counter whose length is not 8 bytes makes \<open>IsReplay\<close>
  panic. It does not: on a bucket that holds the 3-byte value \<open>[1, 2, 3]\<close> for the tag the
  call returns false and stores the counter 1.
\<close>

theorem C9_corrupt_counter_counterexample:
  "IsReplay \<lparr>db = Some (''data'', 100), keypair = Some (), epoch = 100, refCount = 1,
             unlinkIfExpired = False\<rparr> [170]
     \<lparr>files = [(''data'', 100) \<mapsto>
         \<lparr>metadata = Some Map.empty, replay = Some [[170] \<mapsto> [1, 2, 3]]\<rparr>],
      trace = []\<rparr>
   = Inr (False,
       \<lparr>files = [(''data'', 100) \<mapsto>
         \<lparr>metadata = Some Map.empty, replay = Some [[170] \<mapsto> [1, 0, 0, 0, 0, 0, 0, 0]]\<rparr>],
        trace = []\<rparr>)"
  by (simp add: IsReplay_def PutUint64_def)

text \<open>
  Claim C9, amended. \<open>IsReplay\<close> fails, with a panic, exactly when the tag is not empty
  and the key has no replay bucket to update (the handle is \<open>nil\<close>, the update fails or
  the bucket is missing; a missing bucket is the panic \<open>ReplayBucketMissing\<close>). A stored
  value whose length is not 8 bytes causes no panic: it is read as the counter 0, so the
  call returns false and replaces the value by the 8-byte counter 1.
\<close>

theorem C9_IsReplay_panics:
  "((\<exists>e. IsReplay k tag w = Inl e) \<longleftrightarrow> tag \<noteq> [] \<and> replayBucket k w = None) \<and>
   (tag \<noteq> [] \<and> db k = Some f \<and> files w f = Some fl \<and> replay fl = None \<longrightarrow>
      IsReplay k tag w = Inl (Panics ReplayBucketMissing)) \<and>
   (tag \<noteq> [] \<and> replayBucket k w = Some bkt \<and> bkt tag = Some b \<and> length b \<noteq> 8 \<longrightarrow>
      (\<exists>w'. IsReplay k tag w = Inr (False, w') \<and>
            replayBucket k w' = Some (bkt(tag \<mapsto> PutUint64 1))))"
proof (intro conjI impI)
  show "(\<exists>e. IsReplay k tag w = Inl e) \<longleftrightarrow> tag \<noteq> [] \<and> replayBucket k w = None"
    by (rule IsReplay_fails_iff)
next
  assume "tag \<noteq> [] \<and> db k = Some f \<and> files w f = Some fl \<and> replay fl = None"
  then show "IsReplay k tag w = Inl (Panics ReplayBucketMissing)"
    by (simp add: IsReplay_def)
next
  assume "tag \<noteq> [] \<and> replayBucket k w = Some bkt \<and> bkt tag = Some b \<and> length b \<noteq> 8"
  then show "\<exists>w'. IsReplay k tag w = Inr (False, w') \<and>
            replayBucket k w' = Some (bkt(tag \<mapsto> PutUint64 1))"
    using IsReplay_bad_length [of tag k w bkt b] by blast
qed

theorem C9_IsReplay_panics_witness:
  "IsReplay \<lparr>db = Some (''data'', 100), keypair = Some (), epoch = 100, refCount = 1,
             unlinkIfExpired = False\<rparr> [170]
     \<lparr>files = [(''data'', 100) \<mapsto> \<lparr>metadata = Some Map.empty, replay = None\<rparr>],
      trace = []\<rparr> = Inl (Panics ReplayBucketMissing) \<and>
   (\<exists>w'. IsReplay \<lparr>db = Some (''data'', 100), keypair = Some (), epoch = 100, refCount = 1,
             unlinkIfExpired = False\<rparr> [170]
     \<lparr>files = [(''data'', 100) \<mapsto>
         \<lparr>metadata = Some Map.empty, replay = Some [[170] \<mapsto> [1, 2, 3]]\<rparr>],
      trace = []\<rparr> = Inr (False, w'))"
proof -
  let ?k = "\<lparr>db = Some (''data'', 100), keypair = Some (), epoch = 100, refCount = 1,
             unlinkIfExpired = False\<rparr>"
  let ?fl = "\<lparr>metadata = Some Map.empty, replay = None\<rparr>"
  let ?w = "\<lparr>files = [(''data'', 100) \<mapsto> ?fl], trace = []\<rparr> :: unit world"
  let ?w2 = "\<lparr>files = [(''data'', 100) \<mapsto>
         \<lparr>metadata = Some Map.empty, replay = Some [[170] \<mapsto> [1, 2, 3]]\<rparr>],
      trace = []\<rparr> :: unit world"
  have h1: "[170] \<noteq> ([] :: bytes) \<and> db ?k = Some (''data'', 100) \<and> files ?w (''data'', 100) = Some ?fl
      \<and> replay ?fl = None"
    by simp
  have h2: "[170] \<noteq> ([] :: bytes) \<and> replayBucket ?k ?w2 = Some [[170] \<mapsto> [1, 2, 3]]
      \<and> [[170] \<mapsto> [1, 2, 3]] [170] = Some [1, 2, 3] \<and> length [1 :: byte, 2, 3] \<noteq> 8"
    by (simp add: replayBucket_def)
  note a = C9_IsReplay_panics [of ?k "[170]" ?w "(''data'', 100)" ?fl,
      THEN conjunct2, THEN conjunct1, THEN mp, OF h1]
  note b = C9_IsReplay_panics [of ?k "[170]" ?w2 _ _ "[[170] \<mapsto> [1, 2, 3]]" "[1, 2, 3]",
      THEN conjunct2, THEN conjunct2, THEN mp, OF h2]
  from a b show ?thesis by blast
qed

subsection \<open>Reopening a key from disk\<close>

lemma singleton_version: "length (b :: bytes) = 1 \<Longrightarrow> b ! 0 = 0 \<Longrightarrow> b = [0]"
  by (cases b) auto

lemma New_Inr:
  assumes "New X openFails gen dataDir ep w = Inr (k, w')"
  shows "\<exists>kp m pb eb.
     k = \<lparr>db = Some (dataDir, ep), keypair = Some kp, epoch = ep, refCount = 1,
          unlinkIfExpired = False\<rparr> \<and>
     files w' = (files w)((dataDir, ep) \<mapsto>
        \<lparr>metadata = Some m,
         replay = Some (CreateBucketIfNotExists (replay (bolt_Open (dataDir, ep) w)))\<rparr>) \<and>
     m ''version'' = Some [0] \<and> m ''privateKey'' = Some pb \<and>
     (FromBytes X pb = Some kp \<or> pb = Bytes X kp) \<and>
     m ''epochKey'' = Some eb \<and> length eb = 8 \<and> Uint64 eb = ep"
proof -
  let ?f = "(dataDir, ep)"
  let ?m = "CreateBucketIfNotExists (metadata (bolt_Open ?f w))"
  let ?r = "CreateBucketIfNotExists (replay (bolt_Open ?f w))"
  show ?thesis
  proof (cases "?m ''version''")
    case None
    with assms obtain kp where
      k: "k = \<lparr>db = Some ?f, keypair = Some kp, epoch = ep, refCount = 1, unlinkIfExpired = False\<rparr>"
      and w': "files w' = (files w)(?f \<mapsto> \<lparr>metadata = Some (?m(''version'' \<mapsto> [0],
           ''privateKey'' \<mapsto> Bytes X kp, ''epochKey'' \<mapsto> PutUint64 ep)), replay = Some ?r\<rparr>)"
      by (auto simp add: New_def Let_def flush_def split: option.splits if_splits)
    show ?thesis
      apply (rule exI [of _ kp])
      apply (rule exI [of _ "?m(''version'' \<mapsto> [0],
           ''privateKey'' \<mapsto> Bytes X kp, ''epochKey'' \<mapsto> PutUint64 ep)"])
      apply (rule exI [of _ "Bytes X kp"])
      apply (rule exI [of _ "PutUint64 ep"])
      apply (simp add: k w' length_PutUint64 Uint64_PutUint64)
      done
  next
    case (Some b)
    with assms have b: "b = [0]"
      by (auto simp add: New_def Let_def split: if_splits intro: singleton_version)
    from assms Some [unfolded b] obtain kp pb eb where
      k: "k = \<lparr>db = Some ?f, keypair = Some kp, epoch = ep, refCount = 1, unlinkIfExpired = False\<rparr>"
      and w': "files w' = (files w)(?f \<mapsto> \<lparr>metadata = Some ?m, replay = Some ?r\<rparr>)"
      and m: "?m ''privateKey'' = Some pb" "FromBytes X pb = Some kp"
         "?m ''epochKey'' = Some eb" "length eb = 8" "Uint64 eb = ep"
      by (auto simp add: New_def Let_def getUint64_def
          split: option.splits if_splits sum.splits)
    show ?thesis
      apply (rule exI [of _ kp])
      apply (rule exI [of _ ?m])
      apply (rule exI [of _ pb])
      apply (rule exI [of _ eb])
      apply (simp add: k w' m Some [unfolded b])
      done
  qed
qed

lemma New_load:
  assumes "files w (dataDir, ep) = Some fl" and "metadata fl = Some m" and "replay fl = Some r"
    and "m ''version'' = Some [0]" and "m ''privateKey'' = Some pb" and "FromBytes X pb = Some kp"
    and "m ''epochKey'' = Some eb" and "length eb = 8" and "Uint64 eb = ep"
  shows "New X False gen dataDir ep w =
     Inr (\<lparr>db = Some (dataDir, ep), keypair = Some kp, epoch = ep, refCount = 1,
           unlinkIfExpired = False\<rparr>,
          w\<lparr>files := (files w)((dataDir, ep) \<mapsto> \<lparr>metadata = Some m, replay = Some r\<rparr>)\<rparr>)"
  using assms
  by (simp add: New_def Let_def getUint64_def bolt_Open_def CreateBucketIfNotExists_def)

lemma IsReplay_metadata:
  assumes "IsReplay k t w = Inr (v, w')"
  shows "map_option metadata (files w' f) = map_option metadata (files w f) \<and> trace w' = trace w"
  using assms
  by (auto simp add: IsReplay_def Let_def split: option.splits if_splits)

lemma IsReplay_run_metadata:
  assumes "IsReplay_run k ts w = Inr (vs, w')"
  shows "map_option metadata (files w' f) = map_option metadata (files w f) \<and> trace w' = trace w"
  using assms
proof (induction ts arbitrary: w vs)
  case Nil
  then show ?case by simp
next
  case (Cons t ts)
  from Cons.prems obtain v w1 vs' where
    a: "IsReplay k t w = Inr (v, w1)" and b: "IsReplay_run k ts w1 = Inr (vs', w')"
    by (auto split: sum.splits)
  from IsReplay_metadata [OF a, of f] Cons.IH [OF b] show ?case by simp
qed


lemma New_created_replay_empty:
  assumes "files w (dataDir, ep) = None"
  shows "New X False (Some kp) dataDir ep w =
     Inr (\<lparr>db = Some (dataDir, ep), keypair = Some kp, epoch = ep, refCount = 1,
           unlinkIfExpired = False\<rparr>,
          w\<lparr>files := (files w)((dataDir, ep) \<mapsto>
               \<lparr>metadata = Some [''version'' \<mapsto> [0], ''privateKey'' \<mapsto> Bytes X kp,
                                 ''epochKey'' \<mapsto> PutUint64 ep],
                replay = Some Map.empty\<rparr>),
            trace := trace w @ [DbSync (dataDir, ep)]\<rparr>)"
  using assms
  by (simp add: New_def Let_def bolt_Open_def CreateBucketIfNotExists_def newFile_def flush_def)

text \<open>
  Claim C2. Take a key that \<open>New\<close> has created or loaded for the epoch \<open>E\<close> in
  \<open>dataDir\<close>, mark any tags with \<open>IsReplay\<close>, and drop its one reference: \<open>forceClose\<close>
  closes it. If the close does not unlink the file (the \<open>unlinkIfExpired\<close> flag, which
  \<open>New\<close> leaves unset, is not set, or the key is not expired), \<open>New\<close> for the same directory
  and epoch succeeds without generating a key, the key it returns has the same public key,
  and \<open>IsReplay\<close> on it returns true for every tag marked before the close. Every step
  of the scenario returns; the key library is assumed to read back the keys it
  serialises.
\<close>

theorem C2_reopen_roundtrip:
  assumes rt: "\<forall>kp. FromBytes X (Bytes X kp) = Some kp"
    and new1: "New X openFails gen dataDir E w0 = Inr (k1, w1)"
    and keep: "b \<longrightarrow> \<not> E < now - 1"
  shows "\<exists>vs w2 k2 w3 k3 w4.
      IsReplay_run k1 tags w1 = Inr (vs, w2) \<and>
      Deref now (SetUnlinkIfExpired b k1) w2 = Inr (k2, w3) \<and>
      db k2 = None \<and> keypair k2 = None \<and>
      closes (dataDir, E) w3 = closes (dataDir, E) w1 + 1 \<and>
      New X False gen' dataDir E w3 = Inr (k3, w4) \<and>
      PublicKey X k3 = PublicKey X k1 \<and> (\<exists>pk. PublicKey X k1 = Inr pk) \<and>
      (\<forall>t \<in> set tags. \<exists>w5. IsReplay k3 t w4 = Inr (True, w5))"
proof -
  let ?f = "(dataDir, E)"
  from New_Inr [OF new1] obtain kp m pb eb where
    k1: "k1 = \<lparr>db = Some ?f, keypair = Some kp, epoch = E, refCount = 1, unlinkIfExpired = False\<rparr>"
    and w1: "files w1 = (files w0)(?f \<mapsto> \<lparr>metadata = Some m,
         replay = Some (CreateBucketIfNotExists (replay (bolt_Open ?f w0)))\<rparr>)"
    and m: "m ''version'' = Some [0]" "m ''privateKey'' = Some pb"
       "FromBytes X pb = Some kp \<or> pb = Bytes X kp"
       "m ''epochKey'' = Some eb" "length eb = 8" "Uint64 eb = E"
    by blast
  from m(3) rt have fb: "FromBytes X pb = Some kp" by auto
  define r1 where "r1 = CreateBucketIfNotExists (replay (bolt_Open ?f w0))"
  have rb1: "replayBucket k1 w1 = Some r1"
    by (simp add: replayBucket_def k1 w1 r1_def)
  from IsReplay_run_verdicts [OF rb1, of tags] obtain vs w2 r2 where
    run: "IsReplay_run k1 tags w1 = Inr (vs, w2)"
    and rb2: "replayBucket k1 w2 = Some r2"
    and cnt: "\<forall>t. storedCounter r2 t \<noteq> 0 \<longleftrightarrow> storedCounter r1 t \<noteq> 0 \<or> (t \<noteq> [] \<and> t \<in> set tags)"
    by blast
  from IsReplay_run_metadata [OF run, of ?f]
  have md: "map_option metadata (files w2 ?f) = Some (Some m)" and tr: "trace w2 = trace w1"
    by (simp_all add: w1)
  from rb2 obtain fl2 where fl2: "files w2 ?f = Some fl2" "replay fl2 = Some r2"
    by (auto simp add: replayBucket_def k1 split: option.splits)
  with md have mfl2: "metadata fl2 = Some m" by simp
  define k2 where "k2 = k1\<lparr>unlinkIfExpired := b, refCount := 0, db := None, keypair := None\<rparr>"
  define w3 where "w3 = w2\<lparr>trace := trace w2 @ [DbSync ?f, DbClose ?f, KeyReset kp]\<rparr>"
  have "forceClose now (SetUnlinkIfExpired b k1\<lparr>refCount := 0\<rparr>) w2 = (k2, w3)"
  proof -
    from keep have nc: "\<not> (b \<and> E < now - 1)" by blast
    show ?thesis
      by (simp add: forceClose_eq [of _ ?f kp] k1 SetUnlinkIfExpired_def k2_def w3_def nc)
  qed
  then have d: "Deref now (SetUnlinkIfExpired b k1) w2 = Inr (k2, w3)"
    by (simp add: Deref_last k1 SetUnlinkIfExpired_def)
  have cl: "closes ?f w3 = closes ?f w1 + 1"
    by (simp add: closes_def w3_def tr)
  have f3: "files w3 ?f = Some fl2" by (simp add: w3_def fl2)
  define k3 where "k3 = \<lparr>db = Some ?f, keypair = Some kp, epoch = E, refCount = 1,
      unlinkIfExpired = False\<rparr>"
  define w4 where "w4 = w3\<lparr>files := (files w3)(?f \<mapsto> \<lparr>metadata = Some m, replay = Some r2\<rparr>)\<rparr>"
  have n2: "New X False gen' dataDir E w3 = Inr (k3, w4)"
    unfolding k3_def w4_def
    by (rule New_load [OF f3 mfl2 fl2(2) m(1,2) fb m(4,5,6)])
  have pk: "PublicKey X k3 = PublicKey X k1" "PublicKey X k1 = Inr (Public X kp)"
    by (simp_all add: PublicKey_def k3_def k1)
  have rb4: "replayBucket k3 w4 = Some r2"
    by (simp add: replayBucket_def k3_def w4_def)
  have "\<exists>w5. IsReplay k3 t w4 = Inr (True, w5)" if "t \<in> set tags" for t
  proof (cases "t = []")
    case True
    then show ?thesis by (simp add: IsReplay_empty)
  next
    case False
    with cnt that have "storedCounter r2 t \<noteq> 0" by simp
    with IsReplay_replayBucket [OF False rb4] show ?thesis by auto
  qed
  with run d cl n2 pk show ?thesis
    by (auto simp add: k2_def)
qed


theorem C2_reopen_witness:
  "\<exists>k1 w1 vs w2 k2 w3 k3 w4 w5.
     New \<lparr>FromBytes = Some, Bytes = (\<lambda>kp. kp), Public = map (\<lambda>x. x + 1)\<rparr> False (Some [7, 9])
       ''data'' 100 \<lparr>files = Map.empty, trace = []\<rparr> = Inr (k1, w1) \<and>
     IsReplay_run k1 [[170], []] w1 = Inr (vs, w2) \<and>
     Deref 101 (SetUnlinkIfExpired True k1) w2 = Inr (k2, w3) \<and>
     New \<lparr>FromBytes = Some, Bytes = (\<lambda>kp. kp), Public = map (\<lambda>x. x + 1)\<rparr> False None
       ''data'' 100 w3 = Inr (k3, w4) \<and>
     PublicKey \<lparr>FromBytes = Some, Bytes = (\<lambda>kp. kp), Public = map (\<lambda>x. x + 1)\<rparr> k3 = Inr [8, 10] \<and>
     IsReplay k3 [170] w4 = Inr (True, w5)"
proof -
  let ?X = "\<lparr>FromBytes = Some, Bytes = (\<lambda>kp. kp), Public = map (\<lambda>x. x + 1)\<rparr> :: bytes ecdh"
  let ?w0 = "\<lparr>files = Map.empty, trace = []\<rparr> :: bytes world"
  let ?k1 = "\<lparr>db = Some (''data'', 100), keypair = Some [7, 9], epoch = 100, refCount = 1,
           unlinkIfExpired = False\<rparr> :: bytes MixKey"
  let ?w1 = "?w0\<lparr>files := (files ?w0)((''data'', 100) \<mapsto>
               \<lparr>metadata = Some [''version'' \<mapsto> [0], ''privateKey'' \<mapsto> Bytes ?X [7, 9],
                                 ''epochKey'' \<mapsto> PutUint64 100],
                replay = Some Map.empty\<rparr>),
            trace := trace ?w0 @ [DbSync (''data'', 100)]\<rparr>"
  have rt: "\<forall>kp. FromBytes ?X (Bytes ?X kp) = Some kp" by simp
  have new1: "New ?X False (Some [7, 9]) ''data'' 100 ?w0 = Inr (?k1, ?w1)"
    by (rule New_created_replay_empty) simp
  have keep: "True \<longrightarrow> \<not> (100 :: 64 word) < 101 - 1" by simp
  from C2_reopen_roundtrip [OF rt new1 keep, of "[[170], []]" None]
  obtain vs w2 k2 w3 k3 w4 where
    r: "IsReplay_run ?k1 [[170], []] ?w1 = Inr (vs, w2)"
       "Deref 101 (SetUnlinkIfExpired True ?k1) w2 = Inr (k2, w3)"
       "New ?X False None ''data'' 100 w3 = Inr (k3, w4)"
       "PublicKey ?X k3 = PublicKey ?X ?k1"
       "\<forall>t \<in> set [[170], []]. \<exists>w5. IsReplay k3 t w4 = Inr (True, w5)"
    by blast
  from r(5) obtain w5 where w5: "IsReplay k3 [170] w4 = Inr (True, w5)" by auto
  from r(4) have pk: "PublicKey ?X k3 = Inr [8, 10]" by (simp add: PublicKey_def)
  from new1 r(1,2,3) pk w5 show ?thesis by blast
qed

section \<open>Properties of the PKI cache\<close>

subsection \<open>The peer maps of a cache entry\<close>

lemma dom_insertNodes: "dom (insertNodes nodes m) = dom m \<union> nodeIds nodes"
  by (induction nodes arbitrary: m) (auto simp add: nodeIds_def)

lemma buildMap_Inr:
  assumes "buildMap P e layer Map.empty = Inr m"
  shows "dom m = nodeIds (if layer = LayerProvider P then Providers (doc e)
                           else Topology (doc e) ! unat layer)"
proof (cases "layer = LayerProvider P")
  case True
  with assms have "m = insertNodes (Providers (doc e)) Map.empty"
    by (simp add: buildMap_def)
  with True show ?thesis by (simp add: dom_insertNodes)
next
  case False
  with assms have "m = insertNodes (Topology (doc e) ! unat layer) Map.empty"
    by (simp add: buildMap_def split: if_splits)
  with False show ?thesis by (simp add: dom_insertNodes)
qed

lemma newPKICacheEntry_Inr:
  assumes "newPKICacheEntry P s d = Inr e"
  shows "doc e = d \<and> GetNodeByKey P d (identityKey s) = Some (self e) \<and>
     Topology d \<noteq> [] \<and> Name (self e) = Identifier s \<and>
     isOurLayerSane P \<lparr>doc = d, self = self e, incoming = Map.empty, outgoing = Map.empty\<rparr> (IsProvider s) \<and>
     buildMap P \<lparr>doc = d, self = self e, incoming = Map.empty, outgoing = Map.empty\<rparr>
        (incomingLayer P \<lparr>doc = d, self = self e, incoming = Map.empty, outgoing = Map.empty\<rparr>)
        Map.empty = Inr (incoming e) \<and>
     buildMap P \<lparr>doc = d, self = self e, incoming = Map.empty, outgoing = Map.empty\<rparr>
        (outgoingLayer P \<lparr>doc = d, self = self e, incoming = Map.empty, outgoing = Map.empty\<rparr>)
        Map.empty = Inr (outgoing e)"
  using assms
  by (auto simp add: newPKICacheEntry_def Let_def split: option.splits if_splits sum.splits)

lemma word8_of_nat_pred:
  assumes "0 < n" and "n \<le> 255"
  shows "unat (word_of_nat n - 1 :: 8 word) = n - 1"
proof -
  from assms(1) have "1 \<le> n" by simp
  then have "(word_of_nat (n - 1) :: 8 word) = word_of_nat n - word_of_nat 1"
    by (rule of_nat_diff)
  then have "(word_of_nat n - 1 :: 8 word) = word_of_nat (n - 1)" by simp
  moreover have "unat (word_of_nat (n - 1) :: 8 word) = n - 1"
    using assms(2) by (simp add: unat_of_nat)
  ultimately show ?thesis by simp
qed

lemma unat8_le: "unat (x :: 8 word) \<le> 255"
proof -
  have "unat x < 2 ^ LENGTH(8)" by (rule unsigned_less)
  then show ?thesis by simp
qed

lemma incoming_layer_nodes:
  assumes sane: "isOurLayerSane P e isProvider"
    and ne: "Topology (doc e) \<noteq> []"
    and le: "length (Topology (doc e)) \<le> unat (LayerProvider P)"
  shows "(if incomingLayer P e = LayerProvider P then Providers (doc e)
          else Topology (doc e) ! unat (incomingLayer P e))
         = spec_incoming_nodes P (doc e) (self e)
       \<and> (incomingLayer P e = LayerProvider P \<or> unat (incomingLayer P e) < length (Topology (doc e)))"
proof -
  let ?n = "length (Topology (doc e))"
  let ?L = "Layer (self e)"
  let ?LP = "LayerProvider P"
  from ne have pos: "0 < ?n" by simp
  from le unat8_le [of ?LP] have n255: "?n \<le> 255" by simp
  from pos le have lp0: "?LP \<noteq> 0" by (auto simp add: unat_eq_0)
  show ?thesis
  proof (cases "?L = ?LP")
    case True
    have u: "unat (word_of_nat ?n - 1 :: 8 word) = ?n - 1"
      by (rule word8_of_nat_pred [OF pos n255])
    with pos le have "unat (word_of_nat ?n - 1 :: 8 word) < unat ?LP" by arith
    then have neq: "(word_of_nat ?n - 1 :: 8 word) \<noteq> ?LP" by auto
    from True lp0 neq u pos ne show ?thesis
      by (simp add: incomingLayer_def spec_incoming_nodes_def last_conv_nth)
  next
    case False
    with sane have np: "\<not> isProvider" and lt: "unat ?L < ?n"
      by (auto simp add: isOurLayerSane_def split: if_splits)
    show ?thesis
    proof (cases "?L = 0")
      case True
      with False show ?thesis by (simp add: incomingLayer_def spec_incoming_nodes_def)
    next
      case z: False
      then have "unat ?L \<noteq> 0" by (simp add: unat_eq_0)
      then have u: "unat (?L - 1) = unat ?L - 1" by (simp add: unat_minus_one z)
      with lt le \<open>unat ?L \<noteq> 0\<close> have "unat (?L - 1) < unat ?LP" by arith
      then have "?L - 1 \<noteq> ?LP" by auto
      with False z u lt show ?thesis
        by (simp add: incomingLayer_def spec_incoming_nodes_def)
    qed
  qed
qed

lemma outgoing_layer_nodes:
  assumes sane: "isOurLayerSane P e isProvider"
    and ne: "Topology (doc e) \<noteq> []"
    and le: "length (Topology (doc e)) \<le> unat (LayerProvider P)"
  shows "(if outgoingLayer P e = LayerProvider P then Providers (doc e)
          else Topology (doc e) ! unat (outgoingLayer P e))
         = spec_outgoing_nodes P (doc e) (self e)
       \<and> (outgoingLayer P e = LayerProvider P \<or> unat (outgoingLayer P e) < length (Topology (doc e)))"
proof -
  let ?n = "length (Topology (doc e))"
  let ?L = "Layer (self e)"
  let ?LP = "LayerProvider P"
  from ne have pos: "0 < ?n" by simp
  from pos le have lp0: "?LP \<noteq> 0" by (auto simp add: unat_eq_0)
  have last_iff: "uint ?L = int ?n - 1 \<longleftrightarrow> unat ?L + 1 = ?n"
    unfolding uint_nat using pos by arith
  show ?thesis
  proof (cases "?L = ?LP")
    case True
    with le have d: "unat ?L + 1 \<noteq> ?n" by simp
    with last_iff have c: "uint ?L \<noteq> int ?n - 1" by simp
    from c d True lp0 pos show ?thesis
      by (simp add: outgoingLayer_def spec_outgoing_nodes_def)
  next
    case False
    with sane have lt: "unat ?L < ?n"
      by (auto simp add: isOurLayerSane_def split: if_splits)
    show ?thesis
    proof (cases "unat ?L + 1 = ?n")
      case True
      with last_iff have "uint ?L = int ?n - 1" by simp
      with True show ?thesis by (simp add: outgoingLayer_def spec_outgoing_nodes_def)
    next
      case nl: False
      with lt have lt2: "unat ?L + 1 < ?n" by simp
      with le unat8_le [of ?LP] have "unat ?L + 1 < 256" by simp
      then have u: "unat (?L + 1) = unat ?L + 1"
        by (simp add: unat_word_ariths)
      with lt2 le have "unat (?L + 1) < unat ?LP" by simp
      then have "?L + 1 \<noteq> ?LP" by auto
      moreover from nl last_iff have "uint ?L \<noteq> int ?n - 1" by simp
      ultimately show ?thesis using False nl u lt2
        by (simp add: outgoingLayer_def spec_outgoing_nodes_def)
    qed
  qed
qed

text \<open>
  Claim C5 says that the incoming map of a provider holds the nodes of the last topology
  layer. With the sentinel at 255 and a topology of 256 layers it does not:
  \<open>uint8(len(Topology)) - 1\<close> is 255, the sentinel, and the map is built from the provider
  list; the one mix of the last layer is not in it.
\<close>

theorem C5_provider_256_layers_counterexample:
  "newPKICacheEntry \<lparr>LayerProvider = 255, GetNodeByKey = spec_GetNodeByKey\<rparr>
     \<lparr>identityKey = replicate 32 1, Identifier = ''provider'', IsProvider = True,
      DisableMixAuthentication = False\<rparr>
     \<lparr>Epoch = 100,
      Topology = replicate 255 [] @
        [[\<lparr>Name = ''mix'', IdentityKey = replicate 32 2, LinkKey = [5], Layer = 255\<rparr>]],
      Providers = [\<lparr>Name = ''provider'', IdentityKey = replicate 32 1, LinkKey = [6], Layer = 255\<rparr>]\<rparr>
   = Inr \<lparr>doc = \<lparr>Epoch = 100,
             Topology = replicate 255 [] @
               [[\<lparr>Name = ''mix'', IdentityKey = replicate 32 2, LinkKey = [5], Layer = 255\<rparr>]],
             Providers = [\<lparr>Name = ''provider'', IdentityKey = replicate 32 1, LinkKey = [6], Layer = 255\<rparr>]\<rparr>,
           self = \<lparr>Name = ''provider'', IdentityKey = replicate 32 1, LinkKey = [6], Layer = 255\<rparr>,
           incoming = [replicate 32 1 \<mapsto>
             \<lparr>Name = ''provider'', IdentityKey = replicate 32 1, LinkKey = [6], Layer = 255\<rparr>],
           outgoing = [replicate 32 1 \<mapsto>
             \<lparr>Name = ''provider'', IdentityKey = replicate 32 1, LinkKey = [6], Layer = 255\<rparr>]\<rparr>
   \<and> last (replicate 255 [] @
        [[\<lparr>Name = ''mix'', IdentityKey = replicate 32 2, LinkKey = [5], Layer = 255\<rparr>]])
      = [\<lparr>Name = ''mix'', IdentityKey = replicate 32 2, LinkKey = [5], Layer = 255\<rparr>]
   \<and> nodeId (replicate 32 2) = replicate 32 2
   \<and> [replicate 32 1 \<mapsto>
         \<lparr>Name = ''provider'', IdentityKey = replicate 32 1, LinkKey = [6], Layer = 255\<rparr>]
        (replicate 32 2 :: bytes) = None"
  by (simp add: newPKICacheEntry_def spec_GetNodeByKey_def isOurLayerSane_def incomingLayer_def
      outgoingLayer_def buildMap_def nodeId_def NodeIDLength_def)

text \<open>
  Claim C5, amended. For every successfully built cache entry whose document has no more
  topology layers than the value of the provider sentinel (a \<open>uint8\<close>, so at most 255
  layers): a node id is a key of the incoming map iff it is the id of a descriptor in the
  provider list when the own layer is 0, in the last topology layer when the own layer is
  the sentinel, and in the layer before the own one otherwise; it is a key of the
  outgoing map iff it is the id of a descriptor in the provider list when the own layer
  is the last of the topology, in layer 0 when the own layer is the sentinel, and in the
  layer after the own one otherwise.
\<close>

theorem C5_peer_maps:
  assumes "newPKICacheEntry P s d = Inr e"
    and "length (Topology d) \<le> unat (LayerProvider P)"
  shows "(\<forall>n. n \<in> dom (incoming e) \<longleftrightarrow> n \<in> nodeIds (spec_incoming_nodes P d (self e))) \<and>
         (\<forall>n. n \<in> dom (outgoing e) \<longleftrightarrow> n \<in> nodeIds (spec_outgoing_nodes P d (self e)))"
proof -
  let ?e0 = "\<lparr>doc = d, self = self e, incoming = Map.empty, outgoing = Map.empty\<rparr>"
  note r = newPKICacheEntry_Inr [OF assms(1)]
  from r have sane: "isOurLayerSane P ?e0 (IsProvider s)" and ne: "Topology (doc ?e0) \<noteq> []"
    and bi: "buildMap P ?e0 (incomingLayer P ?e0) Map.empty = Inr (incoming e)"
    and bo: "buildMap P ?e0 (outgoingLayer P ?e0) Map.empty = Inr (outgoing e)"
    by simp_all
  from assms(2) have le: "length (Topology (doc ?e0)) \<le> unat (LayerProvider P)" by simp
  from incoming_layer_nodes [OF sane ne le] buildMap_Inr [OF bi]
  have "dom (incoming e) = nodeIds (spec_incoming_nodes P d (self e))" by simp
  moreover from outgoing_layer_nodes [OF sane ne le] buildMap_Inr [OF bo]
  have "dom (outgoing e) = nodeIds (spec_outgoing_nodes P d (self e))" by simp
  ultimately show ?thesis by simp
qed

theorem C5_peer_maps_witness:
  "(\<forall>n. n \<in> dom [replicate 32 1 \<mapsto> \<lparr>Name = ''a'', IdentityKey = replicate 32 1, LinkKey = [5], Layer = 0\<rparr>]
        \<longleftrightarrow> n \<in> nodeIds [\<lparr>Name = ''a'', IdentityKey = replicate 32 1, LinkKey = [5], Layer = 0\<rparr>]) \<and>
   (\<forall>n. n \<in> dom [replicate 32 4 \<mapsto> \<lparr>Name = ''p'', IdentityKey = replicate 32 4, LinkKey = [8], Layer = 255\<rparr>]
        \<longleftrightarrow> n \<in> nodeIds [\<lparr>Name = ''p'', IdentityKey = replicate 32 4, LinkKey = [8], Layer = 255\<rparr>])"
proof -
  let ?a = "\<lparr>Name = ''a'', IdentityKey = replicate 32 1, LinkKey = [5], Layer = 0\<rparr>"
  let ?me = "\<lparr>Name = ''me'', IdentityKey = replicate 32 2, LinkKey = [6], Layer = 1\<rparr>"
  let ?p = "\<lparr>Name = ''p'', IdentityKey = replicate 32 4, LinkKey = [8], Layer = 255\<rparr>"
  let ?P = "\<lparr>LayerProvider = 255, GetNodeByKey = spec_GetNodeByKey\<rparr>"
  let ?s = "\<lparr>identityKey = replicate 32 2, Identifier = ''me'', IsProvider = False,
      DisableMixAuthentication = False\<rparr>"
  let ?d = "\<lparr>Epoch = 100, Topology = [[?a], [?me]], Providers = [?p]\<rparr>"
  let ?e = "\<lparr>doc = ?d, self = ?me, incoming = [replicate 32 1 \<mapsto> ?a],
       outgoing = [replicate 32 4 \<mapsto> ?p]\<rparr>"
  have b: "newPKICacheEntry ?P ?s ?d = Inr ?e"
    by (simp add: newPKICacheEntry_def spec_GetNodeByKey_def isOurLayerSane_def incomingLayer_def
      outgoingLayer_def buildMap_def nodeId_def NodeIDLength_def)
  have l: "length (Topology ?d) \<le> unat (LayerProvider ?P)" by simp
  from C5_peer_maps [OF b l] show ?thesis
    by (simp add: spec_incoming_nodes_def spec_outgoing_nodes_def)
qed

subsection \<open>Incoming authentication\<close>

lemma epoch_succ_neq: "(n :: 64 word) + 1 \<noteq> n" "(n :: 64 word) - 1 \<noteq> n" "(n :: 64 word) + 1 \<noteq> n - 1"
    "n \<noteq> (n :: 64 word) + 1" "n \<noteq> (n :: 64 word) - 1" "(n :: 64 word) - 1 \<noteq> n + 1"
proof -
  show a: "n + 1 \<noteq> n" by simp
  show b: "n - 1 \<noteq> n" by simp
  have "n + 1 - (n - 1) = 2" by simp
  then show c: "n + 1 \<noteq> n - 1" by auto
  from a show "n \<noteq> n + 1" by simp
  from b show "n \<noteq> n - 1" by simp
  from c show "n - 1 \<noteq> n + 1" by (rule not_sym)
qed

lemma set_docsForEpochs: "set (docsForEpochs docs epochs) = {d. \<exists>ep \<in> set epochs. docs ep = Some d}"
  by (induction epochs) (auto split: option.splits)

lemma incomingLoop_result:
  "fst (incomingLoop now elapsed till ident c ds v) =
     (\<exists>d \<in> set ds. (\<exists>m. incoming d ident = Some m \<and> LinkKey m = PublicKey' c)
        \<and> spec_may_send now elapsed till d) \<and>
   snd (incomingLoop now elapsed till ident c ds v) =
     (v \<or> (\<exists>d \<in> set ds. \<exists>m. incoming d ident = Some m \<and> LinkKey m = PublicKey' c))"
proof (induction ds arbitrary: v)
  case Nil
  show ?case by simp
next
  case (Cons d ds)
  show ?case
  proof (cases "incoming d ident")
    case None
    then show ?thesis using Cons.IH [of v] by simp
  next
    case (Some m)
    show ?thesis
    proof (cases "LinkKey m = PublicKey' c")
      case False
      with Some show ?thesis using Cons.IH [of v] by simp
    next
      case True
      show ?thesis
      proof (cases "spec_may_send now elapsed till d")
        case t: True
        with Some True show ?thesis
          by (auto simp add: spec_may_send_def earlySendSlack_def lateSendSlack_def epoch_succ_neq)
      next
        case f: False
        with Some True show ?thesis using Cons.IH [of True]
          by (auto simp add: spec_may_send_def earlySendSlack_def lateSendSlack_def)
      qed
    qed
  qed
qed

lemma search_epochs_set:
  "set (if till < pkiEarlyConnectSlack then [now] @ [now + 1]
        else if elapsed < pkiLateConnectSlack then [now] @ [now - 1] else [now])
   = spec_search_epochs now elapsed till"
  by (auto simp add: spec_search_epochs_def pkiEarlyConnectSlack_def pkiLateConnectSlack_def)

lemma nodeId_self: "length b = NodeIDLength \<Longrightarrow> nodeId b = b"
  by (simp add: nodeId_def)

lemma authenticateIncoming_enabled:
  assumes "\<not> DisableMixAuthentication s"
  shows "fst (authenticateIncoming s docs now elapsed till c) =
       (length (AdditionalData c) = NodeIDLength \<and>
        (\<exists>ep \<in> spec_search_epochs now elapsed till. \<exists>d. docs ep = Some d \<and> listsIncoming d c
            \<and> spec_may_send now elapsed till d)) \<and>
     snd (authenticateIncoming s docs now elapsed till c) =
       (length (AdditionalData c) = NodeIDLength \<and>
        (\<exists>ep \<in> spec_search_epochs now elapsed till. \<exists>d. docs ep = Some d \<and> listsIncoming d c))"
proof (cases "length (AdditionalData c) = NodeIDLength")
  case False
  with assms show ?thesis by (simp add: authenticateIncoming_def Let_def)
next
  case True
  let ?eps = "if till < pkiEarlyConnectSlack then [now] @ [now + 1]
        else if elapsed < pkiLateConnectSlack then [now] @ [now - 1] else [now]"
  have a: "authenticateIncoming s docs now elapsed till c =
      incomingLoop now elapsed till (nodeId (AdditionalData c)) c (docsForEpochs docs ?eps) False"
    using assms True by (simp add: authenticateIncoming_def Let_def)
  have l: "listsIncoming d c =
      (\<exists>m. incoming d (nodeId (AdditionalData c)) = Some m \<and> LinkKey m = PublicKey' c)" for d
    by (simp add: listsIncoming_def split: option.splits)
  have s: "set (docsForEpochs docs ?eps) =
      {d. \<exists>ep \<in> spec_search_epochs now elapsed till. docs ep = Some d}"
    unfolding set_docsForEpochs search_epochs_set ..
  note r = incomingLoop_result [of now elapsed till "nodeId (AdditionalData c)" c
      "docsForEpochs docs ?eps" False]
  have "fst (authenticateIncoming s docs now elapsed till c) =
      (\<exists>d \<in> set (docsForEpochs docs ?eps). listsIncoming d c \<and> spec_may_send now elapsed till d)"
    unfolding a l by (rule r [THEN conjunct1])
  also have "\<dots> = (\<exists>ep \<in> spec_search_epochs now elapsed till. \<exists>d. docs ep = Some d
      \<and> listsIncoming d c \<and> spec_may_send now elapsed till d)"
    unfolding s by blast
  finally have f: "fst (authenticateIncoming s docs now elapsed till c) =
      (\<exists>ep \<in> spec_search_epochs now elapsed till. \<exists>d. docs ep = Some d
      \<and> listsIncoming d c \<and> spec_may_send now elapsed till d)" .
  have "snd (authenticateIncoming s docs now elapsed till c) =
      (False \<or> (\<exists>d \<in> set (docsForEpochs docs ?eps). listsIncoming d c))"
    unfolding a l by (rule r [THEN conjunct2])
  also have "\<dots> = (\<exists>ep \<in> spec_search_epochs now elapsed till. \<exists>d. docs ep = Some d
      \<and> listsIncoming d c)"
    unfolding s by blast
  finally have g: "snd (authenticateIncoming s docs now elapsed till c) =
      (\<exists>ep \<in> spec_search_epochs now elapsed till. \<exists>d. docs ep = Some d \<and> listsIncoming d c)" .
  from f g True show ?thesis by simp
qed

text \<open>
  Claim C6. With mix authentication enabled, \<open>authenticateIncoming\<close> searches exactly
  these epochs of the cache: the current one; the next one when less than 30 minutes
  remain; otherwise the previous one when less than 3 minutes have elapsed (its result
  is the same on any two caches that agree there). \<open>isValid\<close> is true iff the additional
  data are a node id (32 bytes) and some searched entry has, under that id in its
  incoming map, a descriptor whose link key is the public key presented. \<open>canSend\<close> is
  true iff some such entry has the document epoch \<open>now\<close>, or \<open>now + 1\<close> with less than 2
  minutes remaining, or \<open>now - 1\<close> with less than 2 minutes elapsed. An entry whose
  descriptor has another link key counts for neither, and does not stop the search.
\<close>

theorem C6_authenticateIncoming:
  assumes "\<not> DisableMixAuthentication s"
  shows "(snd (authenticateIncoming s docs now elapsed till c) \<longleftrightarrow>
            length (AdditionalData c) = NodeIDLength \<and>
            (\<exists>ep \<in> spec_search_epochs now elapsed till. \<exists>d. docs ep = Some d \<and> listsIncoming d c)) \<and>
         (fst (authenticateIncoming s docs now elapsed till c) \<longleftrightarrow>
            length (AdditionalData c) = NodeIDLength \<and>
            (\<exists>ep \<in> spec_search_epochs now elapsed till. \<exists>d. docs ep = Some d \<and> listsIncoming d c
                \<and> spec_may_send now elapsed till d)) \<and>
         ((\<forall>ep \<in> spec_search_epochs now elapsed till. docs' ep = docs ep) \<longrightarrow>
            authenticateIncoming s docs' now elapsed till c =
            authenticateIncoming s docs now elapsed till c)"
proof (intro conjI impI)
  note a = authenticateIncoming_enabled [OF assms]
  show "snd (authenticateIncoming s docs now elapsed till c) \<longleftrightarrow>
            length (AdditionalData c) = NodeIDLength \<and>
            (\<exists>ep \<in> spec_search_epochs now elapsed till. \<exists>d. docs ep = Some d \<and> listsIncoming d c)"
    by (rule a [THEN conjunct2])
  show "fst (authenticateIncoming s docs now elapsed till c) \<longleftrightarrow>
            length (AdditionalData c) = NodeIDLength \<and>
            (\<exists>ep \<in> spec_search_epochs now elapsed till. \<exists>d. docs ep = Some d \<and> listsIncoming d c
                \<and> spec_may_send now elapsed till d)"
    by (rule a [THEN conjunct1])
  assume same: "\<forall>ep \<in> spec_search_epochs now elapsed till. docs' ep = docs ep"
  have "fst (authenticateIncoming s docs' now elapsed till c) =
        fst (authenticateIncoming s docs now elapsed till c)"
    unfolding a [of docs', THEN conjunct1] a [of docs, THEN conjunct1] using same by auto
  moreover have "snd (authenticateIncoming s docs' now elapsed till c) =
        snd (authenticateIncoming s docs now elapsed till c)"
    unfolding a [of docs', THEN conjunct2] a [of docs, THEN conjunct2] using same by auto
  ultimately show "authenticateIncoming s docs' now elapsed till c =
            authenticateIncoming s docs now elapsed till c"
    by (rule prod_eqI)
qed

theorem C6_authenticateIncoming_witness:
  "authenticateIncoming
     \<lparr>identityKey = replicate 32 1, Identifier = ''me'', IsProvider = False,
      DisableMixAuthentication = False\<rparr>
     [101 \<mapsto> \<lparr>doc = \<lparr>Epoch = 101, Topology = [], Providers = []\<rparr>,
               self = \<lparr>Name = ''me'', IdentityKey = replicate 32 1, LinkKey = [6], Layer = 1\<rparr>,
               incoming = [replicate 32 7 \<mapsto>
                 \<lparr>Name = ''x'', IdentityKey = replicate 32 7, LinkKey = [9], Layer = 0\<rparr>],
               outgoing = Map.empty\<rparr>]
     100 (59 * Minute) Minute \<lparr>AdditionalData = replicate 32 7, PublicKey' = [9]\<rparr>
   = (True, True)"
proof -
  let ?s = "\<lparr>identityKey = replicate 32 1, Identifier = ''me'', IsProvider = False,
      DisableMixAuthentication = False\<rparr>"
  let ?e = "\<lparr>doc = \<lparr>Epoch = 101, Topology = [], Providers = []\<rparr>,
               self = \<lparr>Name = ''me'', IdentityKey = replicate 32 1, LinkKey = [6], Layer = 1\<rparr>,
               incoming = [replicate 32 7 \<mapsto>
                 \<lparr>Name = ''x'', IdentityKey = replicate 32 7, LinkKey = [9], Layer = 0\<rparr>],
               outgoing = Map.empty\<rparr>"
  let ?docs = "[101 \<mapsto> ?e]"
  let ?c = "\<lparr>AdditionalData = replicate 32 7, PublicKey' = [9]\<rparr>"
  let ?r = "authenticateIncoming ?s ?docs 100 (59 * Minute) Minute ?c"
  have h: "\<not> DisableMixAuthentication ?s" by simp
  note t = C6_authenticateIncoming [OF h, of ?docs 100 "59 * Minute" Minute ?c ?docs]
  have m: "101 \<in> spec_search_epochs 100 (59 * Minute) Minute"
    by (simp add: spec_search_epochs_def Minute_def)
  have e: "?docs 101 = Some ?e" by simp
  have li: "listsIncoming ?e ?c" by (simp add: listsIncoming_def nodeId_def NodeIDLength_def)
  have ms: "spec_may_send 100 (59 * Minute) Minute ?e"
    by (simp add: spec_may_send_def Minute_def)
  have len: "length (AdditionalData ?c) = NodeIDLength" by (simp add: NodeIDLength_def)
  from t m e li ms len have "fst ?r" and "snd ?r" by blast+
  then show ?thesis by (simp only: prod_eq_iff fst_conv snd_conv simp_thms)
qed

text \<open>
  Claim C10. With mix authentication enabled, \<open>authenticateIncoming\<close> returns
  \<open>(canSend, isValid) = (false, false)\<close> for credentials whose additional data are not
  exactly \<open>NodeIDLength\<close> (32) bytes long, whatever the cache holds and whatever the clock
  shows.
\<close>

theorem C10_bad_length_rejected:
  assumes "\<not> DisableMixAuthentication s" and "length (AdditionalData c) \<noteq> NodeIDLength"
  shows "authenticateIncoming s docs now elapsed till c = (False, False)"
  using assms by (simp add: authenticateIncoming_def Let_def)

theorem C10_bad_length_witness:
  "authenticateIncoming
     \<lparr>identityKey = replicate 32 1, Identifier = ''me'', IsProvider = False,
      DisableMixAuthentication = False\<rparr>
     [100 \<mapsto> \<lparr>doc = \<lparr>Epoch = 100, Topology = [], Providers = []\<rparr>,
               self = \<lparr>Name = ''me'', IdentityKey = replicate 32 1, LinkKey = [6], Layer = 1\<rparr>,
               incoming = [[7, 7, 7] @ replicate 29 0 \<mapsto>
                 \<lparr>Name = ''x'', IdentityKey = [7, 7, 7] @ replicate 29 0, LinkKey = [9], Layer = 0\<rparr>],
               outgoing = Map.empty\<rparr>]
     100 (59 * Minute) Minute \<lparr>AdditionalData = [7, 7, 7], PublicKey' = [9]\<rparr>
   = (False, False)"
proof -
  let ?s = "\<lparr>identityKey = replicate 32 1, Identifier = ''me'', IsProvider = False,
      DisableMixAuthentication = False\<rparr>"
  let ?c = "\<lparr>AdditionalData = [7, 7, 7], PublicKey' = [9]\<rparr>"
  have h: "\<not> DisableMixAuthentication ?s" by simp
  have l: "length (AdditionalData ?c) \<noteq> NodeIDLength" by (simp add: NodeIDLength_def)
  show ?thesis by (rule C10_bad_length_rejected [OF h l])
qed

text \<open>
  Claim C7 says that at the start of an epoch (nothing elapsed, the full epoch
  remaining) a node listed only in the document of the next epoch is valid but may not
  send. With an epoch of one hour it is not valid: 60 minutes remain, not less than 30,
  so the next epoch is not searched.
\<close>

theorem C7_full_epoch_remaining_counterexample:
  "authenticateIncoming
     \<lparr>identityKey = replicate 32 1, Identifier = ''me'', IsProvider = False,
      DisableMixAuthentication = False\<rparr>
     [101 \<mapsto> \<lparr>doc = \<lparr>Epoch = 101, Topology = [], Providers = []\<rparr>,
               self = \<lparr>Name = ''me'', IdentityKey = replicate 32 1, LinkKey = [6], Layer = 1\<rparr>,
               incoming = [replicate 32 7 \<mapsto>
                 \<lparr>Name = ''x'', IdentityKey = replicate 32 7, LinkKey = [9], Layer = 0\<rparr>],
               outgoing = Map.empty\<rparr>]
     100 0 (60 * Minute) \<lparr>AdditionalData = replicate 32 7, PublicKey' = [9]\<rparr>
   = (False, False)"
  by (simp add: authenticateIncoming_def pkiEarlyConnectSlack_def pkiLateConnectSlack_def
      Minute_def NodeIDLength_def)

lemma next_in_search: "now + 1 \<in> spec_search_epochs now elapsed till \<longleftrightarrow> till < 30 * Minute"
  by (simp add: spec_search_epochs_def epoch_succ_neq)

text \<open>
  Claim C7, amended. With mix authentication enabled, for a peer with a 32-byte id that
  only the cached document of epoch \<open>now + 1\<close> lists (with the link key presented):
  while 30 minutes or more remain in the epoch, as at its start when it lasts that long,
  \<open>authenticateIncoming\<close> returns \<open>(canSend, isValid) = (false, false)\<close>; with less than
  30 but not less than 2 minutes remaining it returns \<open>(false, true)\<close>; with less than 2
  minutes remaining it returns \<open>(true, true)\<close>.
\<close>

theorem C7_next_epoch_grace:
  assumes "\<not> DisableMixAuthentication s" and "length (AdditionalData c) = NodeIDLength"
    and "docs (now + 1) = Some d1" and "Epoch (doc d1) = now + 1" and "listsIncoming d1 c"
    and "\<forall>ep d. ep \<noteq> now + 1 \<longrightarrow> docs ep = Some d \<longrightarrow> \<not> listsIncoming d c"
  shows "authenticateIncoming s docs now elapsed till c =
     (if till < 2 * Minute then (True, True)
      else if till < 30 * Minute then (False, True)
      else (False, False))"
proof -
  note a = authenticateIncoming_enabled [OF assms(1), of docs now elapsed till c]
  have ex: "(\<exists>ep \<in> spec_search_epochs now elapsed till. \<exists>d. docs ep = Some d \<and> listsIncoming d c \<and> Q d)
      \<longleftrightarrow> till < 30 * Minute \<and> Q d1" for Q
    using assms(3,5,6) next_in_search [of now elapsed till] by (metis option.inject)
  have ms: "spec_may_send now elapsed till d1 \<longleftrightarrow> till < 2 * Minute"
    by (simp add: spec_may_send_def assms(4) epoch_succ_neq)
  have "snd (authenticateIncoming s docs now elapsed till c) \<longleftrightarrow> till < 30 * Minute"
    using a [THEN conjunct2] ex [of "\<lambda>d. True"] assms(2) by simp
  moreover have "fst (authenticateIncoming s docs now elapsed till c) \<longleftrightarrow> till < 2 * Minute"
    using a [THEN conjunct1] ex [of "spec_may_send now elapsed till"] ms assms(2)
    by (auto simp add: Minute_def)
  ultimately show ?thesis
    by (cases "authenticateIncoming s docs now elapsed till c") (auto simp add: Minute_def)
qed

theorem C7_next_epoch_grace_witness:
  "authenticateIncoming
     \<lparr>identityKey = replicate 32 1, Identifier = ''me'', IsProvider = False,
      DisableMixAuthentication = False\<rparr>
     [101 \<mapsto> \<lparr>doc = \<lparr>Epoch = 101, Topology = [], Providers = []\<rparr>,
               self = \<lparr>Name = ''me'', IdentityKey = replicate 32 1, LinkKey = [6], Layer = 1\<rparr>,
               incoming = [replicate 32 7 \<mapsto>
                 \<lparr>Name = ''x'', IdentityKey = replicate 32 7, LinkKey = [9], Layer = 0\<rparr>],
               outgoing = Map.empty\<rparr>]
     100 (50 * Minute) (10 * Minute) \<lparr>AdditionalData = replicate 32 7, PublicKey' = [9]\<rparr>
   = (False, True)"
proof -
  let ?s = "\<lparr>identityKey = replicate 32 1, Identifier = ''me'', IsProvider = False,
      DisableMixAuthentication = False\<rparr>"
  let ?e = "\<lparr>doc = \<lparr>Epoch = 101, Topology = [], Providers = []\<rparr>,
               self = \<lparr>Name = ''me'', IdentityKey = replicate 32 1, LinkKey = [6], Layer = 1\<rparr>,
               incoming = [replicate 32 7 \<mapsto>
                 \<lparr>Name = ''x'', IdentityKey = replicate 32 7, LinkKey = [9], Layer = 0\<rparr>],
               outgoing = Map.empty\<rparr>"
  let ?docs = "[101 \<mapsto> ?e]"
  let ?c = "\<lparr>AdditionalData = replicate 32 7, PublicKey' = [9]\<rparr>"
  have h1: "\<not> DisableMixAuthentication ?s" by simp
  have h2: "length (AdditionalData ?c) = NodeIDLength" by (simp add: NodeIDLength_def)
  have h3: "?docs (100 + 1) = Some ?e" by simp
  have h4: "Epoch (doc ?e) = 100 + 1" by simp
  have h5: "listsIncoming ?e ?c" by (simp add: listsIncoming_def nodeId_def NodeIDLength_def)
  have h6: "\<forall>ep d. ep \<noteq> 100 + 1 \<longrightarrow> ?docs ep = Some d \<longrightarrow> \<not> listsIncoming d ?c" by simp
  have "authenticateIncoming ?s ?docs 100 (50 * Minute) (10 * Minute) ?c =
      (if 10 * Minute < 2 * Minute then (True, True)
       else if 10 * Minute < 30 * Minute then (False, True)
       else (False, False))"
    by (rule C7_next_epoch_grace [OF h1 h2 h3 h4 h5 h6])
  also have "\<dots> = (False, True)" by (simp add: Minute_def)
  finally show ?thesis .
qed

subsection \<open>Outgoing authentication\<close>

lemma outgoingLoop_result:
  "(fst (snd (outgoingLoop now ident c ds desc v)) =
      (\<exists>d \<in> set ds. (\<exists>m. outgoing d ident = Some m \<and> LinkKey m = PublicKey' c)
          \<and> Epoch (doc d) = now)) \<and>
   (snd (snd (outgoingLoop now ident c ds desc v)) =
      (v \<or> (\<exists>d \<in> set ds. \<exists>m. outgoing d ident = Some m \<and> LinkKey m = PublicKey' c))) \<and>
   ((fst (outgoingLoop now ident c ds desc v) = desc
       \<and> \<not> (\<exists>d \<in> set ds. \<exists>m. outgoing d ident = Some m \<and> LinkKey m = PublicKey' c))
    \<or> (\<exists>d \<in> set ds. \<exists>m. outgoing d ident = Some m \<and> LinkKey m = PublicKey' c
          \<and> fst (outgoingLoop now ident c ds desc v) = Some m
          \<and> (fst (snd (outgoingLoop now ident c ds desc v)) \<longrightarrow> Epoch (doc d) = now)))"
proof (induction ds arbitrary: desc v)
  case Nil
  show ?case by simp
next
  case (Cons d ds)
  show ?case
  proof (cases "outgoing d ident")
    case None
    then show ?thesis using Cons.IH [of desc v] by auto
  next
    case (Some m)
    show ?thesis
    proof (cases "LinkKey m = PublicKey' c")
      case False
      with Some show ?thesis using Cons.IH [of desc v] by auto
    next
      case True
      show ?thesis
      proof (cases "Epoch (doc d) = now")
        case t: True
        with Some True show ?thesis by simp
      next
        case f: False
        with Some True show ?thesis using Cons.IH [of "Some m" True] by auto
      qed
    qed
  qed
qed

lemma docsForOutgoing_eq:
  "set (fst (docsForOutgoing docs now elapsed till)) =
     {d. \<exists>ep \<in> spec_search_epochs now elapsed till. docs ep = Some d} \<and>
   snd (docsForOutgoing docs now elapsed till) = now"
  unfolding docsForOutgoing_def Let_def fst_conv snd_conv set_docsForEpochs search_epochs_set
  by simp

lemma authenticateOutgoing_enabled:
  assumes "\<not> DisableMixAuthentication s"
  shows "authenticateOutgoing s docs now elapsed till c =
     outgoingLoop now (nodeId (AdditionalData c)) c (fst (docsForOutgoing docs now elapsed till))
       None False"
  using assms docsForOutgoing_eq [of docs now elapsed till, THEN conjunct2]
  by (simp add: authenticateOutgoing_def split_beta)

text \<open>
  Claim C8. With mix authentication enabled, \<open>authenticateOutgoing\<close> searches the same
  epochs as incoming authentication (the current one; the next one when less than 30
  minutes remain; otherwise the previous one when less than 3 minutes have elapsed).
  \<open>isValid\<close> is true iff some searched entry lists the peer in its outgoing map with the
  link key presented, and then \<open>desc\<close> is such an entry's descriptor; \<open>canSend\<close> is true
  iff some such entry has the document epoch \<open>now\<close>, and then \<open>desc\<close> comes from one.
  Entries of the epochs \<open>now + 1\<close> and \<open>now - 1\<close> alone make the peer valid and supply the
  descriptor, and never let it send.
\<close>

theorem C8_authenticateOutgoing:
  assumes "\<not> DisableMixAuthentication s"
    and "authenticateOutgoing s docs now elapsed till c = (desc, canSend, isValid)"
  shows "(isValid \<longleftrightarrow>
            (\<exists>ep \<in> spec_search_epochs now elapsed till. \<exists>d. docs ep = Some d \<and> listsOutgoing d c)) \<and>
         (canSend \<longleftrightarrow>
            (\<exists>ep \<in> spec_search_epochs now elapsed till. \<exists>d. docs ep = Some d \<and> listsOutgoing d c
                \<and> Epoch (doc d) = now)) \<and>
         (isValid \<longrightarrow>
            (\<exists>ep \<in> spec_search_epochs now elapsed till. \<exists>d m. docs ep = Some d
                \<and> outgoing d (nodeId (AdditionalData c)) = Some m \<and> LinkKey m = PublicKey' c
                \<and> desc = Some m \<and> (canSend \<longrightarrow> Epoch (doc d) = now))) \<and>
         (\<not> isValid \<longrightarrow> desc = None) \<and>
         ((\<forall>ep \<in> spec_search_epochs now elapsed till. \<forall>d. docs ep = Some d \<and> listsOutgoing d c
              \<longrightarrow> Epoch (doc d) = now + 1 \<or> Epoch (doc d) = now - 1) \<longrightarrow> \<not> canSend)"
proof -
  let ?ds = "fst (docsForOutgoing docs now elapsed till)"
  let ?id = "nodeId (AdditionalData c)"
  have r: "outgoingLoop now ?id c ?ds None False = (desc, canSend, isValid)"
    using assms by (simp add: authenticateOutgoing_enabled)
  have l: "listsOutgoing d c = (\<exists>m. outgoing d ?id = Some m \<and> LinkKey m = PublicKey' c)" for d
    by (simp add: listsOutgoing_def split: option.splits)
  have s: "set ?ds = {d. \<exists>ep \<in> spec_search_epochs now elapsed till. docs ep = Some d}"
    by (rule docsForOutgoing_eq [THEN conjunct1])
  note o = outgoingLoop_result [of now ?id c ?ds None False, unfolded r fst_conv snd_conv,
      folded l]
  from o have cs: "canSend \<longleftrightarrow> (\<exists>d \<in> set ?ds. listsOutgoing d c \<and> Epoch (doc d) = now)"
    by blast
  from o have iv: "isValid \<longleftrightarrow> (\<exists>d \<in> set ?ds. listsOutgoing d c)"
    by blast
  from o have de: "(desc = None \<and> \<not> (\<exists>d \<in> set ?ds. listsOutgoing d c))
    \<or> (\<exists>d \<in> set ?ds. \<exists>m. outgoing d ?id = Some m \<and> LinkKey m = PublicKey' c
          \<and> desc = Some m \<and> (canSend \<longrightarrow> Epoch (doc d) = now))"
    by blast
  have 1: "isValid \<longleftrightarrow>
      (\<exists>ep \<in> spec_search_epochs now elapsed till. \<exists>d. docs ep = Some d \<and> listsOutgoing d c)"
    unfolding iv s by blast
  have 2: "canSend \<longleftrightarrow>
      (\<exists>ep \<in> spec_search_epochs now elapsed till. \<exists>d. docs ep = Some d \<and> listsOutgoing d c
          \<and> Epoch (doc d) = now)"
    unfolding cs s by blast
  have 3: "isValid \<longrightarrow>
      (\<exists>ep \<in> spec_search_epochs now elapsed till. \<exists>d m. docs ep = Some d
          \<and> outgoing d ?id = Some m \<and> LinkKey m = PublicKey' c
          \<and> desc = Some m \<and> (canSend \<longrightarrow> Epoch (doc d) = now))"
    using de iv unfolding s by blast
  have 4: "\<not> isValid \<longrightarrow> desc = None"
    using de iv l by blast
  have 5: "(\<forall>ep \<in> spec_search_epochs now elapsed till. \<forall>d. docs ep = Some d \<and> listsOutgoing d c
              \<longrightarrow> Epoch (doc d) = now + 1 \<or> Epoch (doc d) = now - 1) \<longrightarrow> \<not> canSend"
    unfolding 2 using epoch_succ_neq(1,2) [of now] by metis
  from 1 2 3 4 5 show ?thesis by blast
qed


theorem C8_authenticateOutgoing_witness:
  "authenticateOutgoing
     \<lparr>identityKey = replicate 32 1, Identifier = ''me'', IsProvider = False,
      DisableMixAuthentication = False\<rparr>
     [100 \<mapsto> \<lparr>doc = \<lparr>Epoch = 100, Topology = [], Providers = []\<rparr>,
               self = \<lparr>Name = ''me'', IdentityKey = replicate 32 1, LinkKey = [6], Layer = 1\<rparr>,
               incoming = Map.empty, outgoing = Map.empty\<rparr>,
      101 \<mapsto> \<lparr>doc = \<lparr>Epoch = 101, Topology = [], Providers = []\<rparr>,
               self = \<lparr>Name = ''me'', IdentityKey = replicate 32 1, LinkKey = [6], Layer = 1\<rparr>,
               incoming = Map.empty,
               outgoing = [replicate 32 7 \<mapsto>
                 \<lparr>Name = ''x'', IdentityKey = replicate 32 7, LinkKey = [9], Layer = 2\<rparr>]\<rparr>]
     100 (59 * Minute) Minute \<lparr>AdditionalData = replicate 32 7, PublicKey' = [9]\<rparr>
   = (Some \<lparr>Name = ''x'', IdentityKey = replicate 32 7, LinkKey = [9], Layer = 2\<rparr>, False, True)
   \<and> (\<exists>ep \<in> spec_search_epochs 100 (59 * Minute) Minute. \<exists>d.
        [100 \<mapsto> \<lparr>doc = \<lparr>Epoch = 100, Topology = [], Providers = []\<rparr>,
               self = \<lparr>Name = ''me'', IdentityKey = replicate 32 1, LinkKey = [6], Layer = 1\<rparr>,
               incoming = Map.empty, outgoing = Map.empty\<rparr>,
         101 \<mapsto> \<lparr>doc = \<lparr>Epoch = 101, Topology = [], Providers = []\<rparr>,
               self = \<lparr>Name = ''me'', IdentityKey = replicate 32 1, LinkKey = [6], Layer = 1\<rparr>,
               incoming = Map.empty,
               outgoing = [replicate 32 7 \<mapsto>
                 \<lparr>Name = ''x'', IdentityKey = replicate 32 7, LinkKey = [9], Layer = 2\<rparr>]\<rparr>] ep
          = Some d
        \<and> listsOutgoing d \<lparr>AdditionalData = replicate 32 7, PublicKey' = [9]\<rparr>
        \<and> Epoch (doc d) = 101)"
proof -
  let ?s = "\<lparr>identityKey = replicate 32 1, Identifier = ''me'', IsProvider = False,
      DisableMixAuthentication = False\<rparr>"
  let ?x = "\<lparr>Name = ''x'', IdentityKey = replicate 32 7, LinkKey = [9], Layer = 2\<rparr>"
  let ?e0 = "\<lparr>doc = \<lparr>Epoch = 100, Topology = [], Providers = []\<rparr>,
               self = \<lparr>Name = ''me'', IdentityKey = replicate 32 1, LinkKey = [6], Layer = 1\<rparr>,
               incoming = Map.empty, outgoing = Map.empty\<rparr>"
  let ?e1 = "\<lparr>doc = \<lparr>Epoch = 101, Topology = [], Providers = []\<rparr>,
               self = \<lparr>Name = ''me'', IdentityKey = replicate 32 1, LinkKey = [6], Layer = 1\<rparr>,
               incoming = Map.empty, outgoing = [replicate 32 7 \<mapsto> ?x]\<rparr>"
  let ?docs = "[100 \<mapsto> ?e0, 101 \<mapsto> ?e1]"
  let ?c = "\<lparr>AdditionalData = replicate 32 7, PublicKey' = [9]\<rparr>"
  have h: "\<not> DisableMixAuthentication ?s" by simp
  have r: "authenticateOutgoing ?s ?docs 100 (59 * Minute) Minute ?c = (Some ?x, False, True)"
    by (simp add: authenticateOutgoing_def docsForOutgoing_def pkiEarlyConnectSlack_def
        Minute_def nodeId_def NodeIDLength_def)
  note t = C8_authenticateOutgoing [OF h r]
  from t have "\<exists>ep \<in> spec_search_epochs 100 (59 * Minute) Minute. \<exists>d m. ?docs ep = Some d
        \<and> outgoing d (nodeId (AdditionalData ?c)) = Some m \<and> LinkKey m = PublicKey' ?c
        \<and> Some ?x = Some m \<and> (False \<longrightarrow> Epoch (doc d) = 100)"
    by blast
  then obtain ep d m where
    a: "ep \<in> spec_search_epochs 100 (59 * Minute) Minute" "?docs ep = Some d"
       "outgoing d (nodeId (AdditionalData ?c)) = Some m" "LinkKey m = PublicKey' ?c"
    by blast
  from a(3,4) have lo: "listsOutgoing d ?c" by (simp add: listsOutgoing_def)
  from t have "\<not> (\<exists>ep \<in> spec_search_epochs 100 (59 * Minute) Minute. \<exists>d. ?docs ep = Some d
      \<and> listsOutgoing d ?c \<and> Epoch (doc d) = 100)"
    by blast
  with a(1,2) lo have n100: "Epoch (doc d) \<noteq> 100" by blast
  from a(2) have "d = ?e0 \<or> d = ?e1" by (auto split: if_splits)
  with n100 have "Epoch (doc d) = 101" by auto
  with a(1,2) lo r show ?thesis by blast
qed

end
